theory Spec2Isabelle
  imports Complex_Main "HOL-Library.Multiset"
begin

section \<open>Python values and exceptions\<close>

text \<open>
  The two modules of the repository are \<^verbatim>\<open>utils/config_parser/config.py\<close> (the class
  \<^verbatim>\<open>ConfigManager\<close>) and \<^verbatim>\<open>utils/total_time.py\<close> (the function
  \<^verbatim>\<open>calculate_total_time\<close>). Every exception that the modelled code can raise is a
  value of \<open>error\<close>; a computation that may raise returns \<open>error + 'a\<close>, with \<open>Inl\<close> the
  exception. \<open>SystemExit\<close> is what \<^verbatim>\<open>sys.exit(n)\<close> raises; it is the one exception here
  that is not a subclass of \<^verbatim>\<open>Exception\<close>, so \<^verbatim>\<open>except Exception\<close> lets it through.
\<close>

datatype error =
    KeyError string
  | TypeError
  | AttributeError
  | ValueError
  | RuntimeError
  | OSError
  | YAMLError
  | SystemExit nat

fun is_Exception :: "error \<Rightarrow> bool" where
  "is_Exception (SystemExit _) = False"
| "is_Exception _ = True"

text \<open>
  A document loaded by \<^verbatim>\<open>yaml.safe_load\<close>, as a value: \<^verbatim>\<open>None\<close>, a boolean, an integer, a
  float, a string, a list or a mapping. The type \<open>'f\<close> stands for Python's \<^verbatim>\<open>float\<close>, whose
  values the configuration code only stores and never computes with. Mappings have string
  keys, as the configuration tree of the specification has; a Python \<^verbatim>\<open>dict\<close> keeps its keys
  in insertion order, so a mapping is the list of its items in that order. The accessors
  only read the configuration and are modelled on these values. The objects behind a
  document, which \<^verbatim>\<open>_deep_merge\<close> updates in place and which may occur at more than one
  place of a document (a YAML alias), are in the model of \<^verbatim>\<open>_deep_merge\<close> below.
\<close>

datatype 'f yaml =
    YNone
  | YBool bool
  | YInt int
  | YFloat 'f
  | YStr string
  | YList "'f yaml list"
  | YDict "(string \<times> 'f yaml) list"

text \<open>\<^verbatim>\<open>isinstance(x, dict)\<close>\<close>

fun isdict :: "'f yaml \<Rightarrow> bool" where
  "isdict (YDict _) = True"
| "isdict _ = False"

text \<open>\<^verbatim>\<open>p in s\<close> for two strings: \<open>p\<close> occurs in \<open>s\<close> as a substring.\<close>

fun is_substring :: "string \<Rightarrow> string \<Rightarrow> bool" where
  "is_substring p [] = (p = [])"
| "is_substring p (c # cs) = (take (length p) (c # cs) = p \<or> is_substring p cs)"

text \<open>
  \<^verbatim>\<open>key in obj\<close> for a string \<open>key\<close>: membership of the key in a mapping, of the string among
  the elements of a list, of the substring in a string; the other values are not iterable.
\<close>

fun contains :: "'f yaml \<Rightarrow> string \<Rightarrow> error + bool" where
  "contains (YDict kvs) key = Inr (key \<in> fst ` set kvs)"
| "contains (YList xs) key = Inr (YStr key \<in> set xs)"
| "contains (YStr s) key = Inr (is_substring key s)"
| "contains _ key = Inl TypeError"

text \<open>
  \<^verbatim>\<open>obj[key]\<close> for a string \<open>key\<close>: the value of a mapping at the key, \<^verbatim>\<open>KeyError\<close> when the
  key is missing, \<^verbatim>\<open>TypeError\<close> for every value that is not a mapping (a list or a string
  takes integer indices only, the other values take none).
\<close>

fun getitem :: "'f yaml \<Rightarrow> string \<Rightarrow> error + 'f yaml" where
  "getitem (YDict kvs) key =
     (case map_of kvs key of None \<Rightarrow> Inl (KeyError key) | Some v \<Rightarrow> Inr v)"
| "getitem _ key = Inl TypeError"

text \<open>
  \<^verbatim>\<open>d[key] = v\<close> on the items of a dict: an existing key keeps its position and takes the
  new value, a new key is added at the end.
\<close>

fun dict_set :: "(string \<times> 'v) list \<Rightarrow> string \<Rightarrow> 'v \<Rightarrow> (string \<times> 'v) list" where
  "dict_set [] key v = [(key, v)]"
| "dict_set ((k, w) # kvs) key v =
     (if k = key then (k, v) # kvs else (k, w) # dict_set kvs key v)"

text \<open>\<^verbatim>\<open>obj[key] = v\<close> for a string \<open>key\<close>; only a mapping accepts it.\<close>

fun setitem :: "'f yaml \<Rightarrow> string \<Rightarrow> 'f yaml \<Rightarrow> error + 'f yaml" where
  "setitem (YDict kvs) key v = Inr (YDict (dict_set kvs key v))"
| "setitem _ key v = Inl TypeError"

text \<open>\<^verbatim>\<open>obj.items()\<close>: only a mapping has the attribute.\<close>

fun items :: "'f yaml \<Rightarrow> error + (string \<times> 'f yaml) list" where
  "items (YDict kvs) = Inr kvs"
| "items _ = Inl AttributeError"

text \<open>\<^verbatim>\<open>d.get(key, default)\<close> on the items of a dict.\<close>

definition dict_get :: "(string \<times> 'v) list \<Rightarrow> string \<Rightarrow> 'v \<Rightarrow> 'v" where
  "dict_get kvs key dflt = (case map_of kvs key of None \<Rightarrow> dflt | Some v \<Rightarrow> v)"

text \<open>
  \<^verbatim>\<open>obj.get\<close>: the bound method of a mapping; no other value has the attribute. Python
  looks the attribute up before it evaluates the arguments of the call.
\<close>

fun get_method :: "'f yaml \<Rightarrow> error + (string \<Rightarrow> 'f yaml \<Rightarrow> 'f yaml)" where
  "get_method (YDict kvs) = Inr (dict_get kvs)"
| "get_method _ = Inl AttributeError"

text \<open>A chain of subscripts \<^verbatim>\<open>obj[k1][k2]...\<close>, evaluated from the left.\<close>

fun getpath :: "'f yaml \<Rightarrow> string list \<Rightarrow> error + 'f yaml" where
  "getpath v [] = Inr v"
| "getpath v (k # ks) = (case getitem v k of Inl e \<Rightarrow> Inl e | Inr w \<Rightarrow> getpath w ks)"


text \<open>The size of the items of a mapping, for the recursions over nested mappings.\<close>

abbreviation items_size :: "(string \<times> 'f yaml) list \<Rightarrow> nat" where
  "items_size kvs \<equiv> size_list (size_prod (\<lambda>_. 0) size) kvs"

lemma items_smaller: "items s = Inr kvs \<Longrightarrow> items_size kvs < size s"
  by (cases s) auto


section \<open>The configuration manager\<close>

subsection \<open>Python objects\<close>

text \<open>
  A Python value as the interpreter holds it: a \<^verbatim>\<open>dict\<close> is an object on the heap, and a
  value that is a \<^verbatim>\<open>dict\<close> is a reference to the object. Two places that hold the same
  reference hold the same object: this is what \<^verbatim>\<open>yaml.safe_load\<close> returns for a YAML
  alias. The heap maps the address of a \<^verbatim>\<open>dict\<close> to its items, in insertion order. A list
  is never updated by the code modelled here, so a list is the sequence of its elements.
\<close>

type_synonym addr = nat

datatype 'f pyval =
    VNone
  | VBool bool
  | VInt int
  | VFloat 'f
  | VStr string
  | VList "'f pyval list"
  | VDict addr

type_synonym 'f pydict = "(string \<times> 'f pyval) list"

type_synonym 'f heap = "addr \<Rightarrow> 'f pydict option"

text \<open>
  The items of the \<^verbatim>\<open>dict\<close> at an address. Every reference of a Python state points to an
  object; for an address that holds none the model reads no items.
\<close>

definition dict_at :: "'f heap \<Rightarrow> addr \<Rightarrow> 'f pydict" where
  "dict_at h a = (case h a of Some kvs \<Rightarrow> kvs | None \<Rightarrow> [])"

text \<open>\<^verbatim>\<open>isinstance(x, dict)\<close>\<close>

fun is_dict :: "'f pyval \<Rightarrow> bool" where
  "is_dict (VDict _) = True"
| "is_dict _ = False"

text \<open>
  \<^verbatim>\<open>key in obj\<close>, \<^verbatim>\<open>obj[key]\<close> and \<^verbatim>\<open>obj[key] = v\<close> for a string \<open>key\<close>, as \<open>contains\<close>,
  \<open>getitem\<close> and \<open>setitem\<close> on values: here the mapping is the object that \<open>obj\<close> refers
  to, and the assignment updates this object in the heap.
\<close>

fun heap_contains :: "'f heap \<Rightarrow> 'f pyval \<Rightarrow> string \<Rightarrow> error + bool" where
  "heap_contains h (VDict a) key = Inr (key \<in> fst ` set (dict_at h a))"
| "heap_contains h (VList xs) key = Inr (VStr key \<in> set xs)"
| "heap_contains h (VStr s) key = Inr (is_substring key s)"
| "heap_contains h _ key = Inl TypeError"

fun heap_getitem :: "'f heap \<Rightarrow> 'f pyval \<Rightarrow> string \<Rightarrow> error + 'f pyval" where
  "heap_getitem h (VDict a) key =
     (case map_of (dict_at h a) key of None \<Rightarrow> Inl (KeyError key) | Some v \<Rightarrow> Inr v)"
| "heap_getitem h _ key = Inl TypeError"

fun heap_setitem :: "'f heap \<Rightarrow> 'f pyval \<Rightarrow> string \<Rightarrow> 'f pyval \<Rightarrow> error + 'f heap" where
  "heap_setitem h (VDict a) key v = Inr (h(a \<mapsto> dict_set (dict_at h a) key v))"
| "heap_setitem h _ key v = Inl TypeError"


subsection \<open>\<^verbatim>\<open>ConfigManager._deep_merge\<close>\<close>

text \<open>
  \<^verbatim>\<open>
  def _deep_merge(self, dest, source):
      """
      Deep merge two dictionaries recursively.

      Args:
          dest (dict): Destination dictionary to merge into
          source (dict): Source dictionary to merge from
      """
      for key, value in source.items():
          if key in dest and isinstance(dest[key], dict) and isinstance(value, dict):
              self._deep_merge(dest[key], value)
          else:
              dest[key] = value
  \<close>
  The method returns nothing: it updates the object \<open>dest\<close>, and the objects below it,
  in place. \<open>deep_merge depth h dest source\<close> is the heap after the call on the heap \<open>h\<close>,
  with the exception that left the call, if one did; a call that raises keeps the
  assignments made before. \<open>depth\<close> bounds the nesting of the calls: the result is \<open>None\<close>
  when the recursion goes deeper, as it does without end on a document that contains
  itself.

  \<open>merge_loop\<close> is the \<^verbatim>\<open>for\<close> loop. \<^verbatim>\<open>source.items()\<close> is a view of the object \<open>source\<close>,
  not a copy: each turn reads the item at the next position \<open>i\<close> from the heap as it is
  then, and the iterator raises \<^verbatim>\<open>RuntimeError\<close> when the number of items is no longer
  \<open>used\<close>, the number at the start of the loop. No item is ever removed, so the item at
  a position stays at this position.
\<close>

function deep_merge ::
    "nat \<Rightarrow> 'f heap \<Rightarrow> 'f pyval \<Rightarrow> 'f pyval \<Rightarrow> ('f heap \<times> error option) option"
  and merge_loop ::
    "nat \<Rightarrow> 'f heap \<Rightarrow> 'f pyval \<Rightarrow> addr \<Rightarrow> nat \<Rightarrow> nat \<Rightarrow> ('f heap \<times> error option) option" where
  "deep_merge 0 h dest source = None"
| "deep_merge (Suc depth) h dest source =
     (case source of
        VDict s \<Rightarrow> merge_loop depth h dest s (length (dict_at h s)) 0
      | _ \<Rightarrow> Some (h, Some AttributeError))"
| "merge_loop depth h dest s used i =
     (if length (dict_at h s) \<noteq> used then Some (h, Some RuntimeError)
      else if used \<le> i then Some (h, None)
      else
        (case dict_at h s ! i of (key, value) \<Rightarrow>
           (case heap_contains h dest key of
              Inl e \<Rightarrow> Some (h, Some e)
            | Inr True \<Rightarrow>
                (case heap_getitem h dest key of
                   Inl e \<Rightarrow> Some (h, Some e)
                 | Inr sub \<Rightarrow>
                     if is_dict sub \<and> is_dict value then
                       (case deep_merge depth h sub value of
                          None \<Rightarrow> None
                        | Some (h', Some e) \<Rightarrow> Some (h', Some e)
                        | Some (h', None) \<Rightarrow> merge_loop depth h' dest s used (Suc i))
                     else
                       (case heap_setitem h dest key value of
                          Inl e \<Rightarrow> Some (h, Some e)
                        | Inr h' \<Rightarrow> merge_loop depth h' dest s used (Suc i)))
            | Inr False \<Rightarrow>
                (case heap_setitem h dest key value of
                   Inl e \<Rightarrow> Some (h, Some e)
                 | Inr h' \<Rightarrow> merge_loop depth h' dest s used (Suc i)))))"
  by pat_completeness auto

termination
  by (relation "inv_image (less_than <*lex*> less_than) (\<lambda>x. case x of
          Inl (depth, h, dest, source) \<Rightarrow> (depth, 0)
        | Inr (depth, h, dest, s, used, i) \<Rightarrow> (depth, Suc (used - i)))")
    auto

declare merge_loop.simps [simp del]


subsection \<open>The document behind a value\<close>

text \<open>
  \<open>unfold n h v\<close> reads the document that the value \<open>v\<close> stands for in the heap \<open>h\<close>,
  following the references; \<open>n\<close> bounds the nesting, and the result is \<open>None\<close> for a
  document nested deeper or for a reference to no object. An object that occurs at two
  places is read twice.
\<close>

fun unfold :: "nat \<Rightarrow> 'f heap \<Rightarrow> 'f pyval \<Rightarrow> 'f yaml option" where
  "unfold 0 h v = None"
| "unfold (Suc n) h VNone = Some YNone"
| "unfold (Suc n) h (VBool b) = Some (YBool b)"
| "unfold (Suc n) h (VInt i) = Some (YInt i)"
| "unfold (Suc n) h (VFloat x) = Some (YFloat x)"
| "unfold (Suc n) h (VStr s) = Some (YStr s)"
| "unfold (Suc n) h (VList vs) = map_option YList (those (map (unfold n h) vs))"
| "unfold (Suc n) h (VDict a) =
     (case h a of
        None \<Rightarrow> None
      | Some kvs \<Rightarrow>
          map_option YDict
            (those (map (\<lambda>kv. map_option (Pair (fst kv)) (unfold n h (snd kv))) kvs)))"

text \<open>
  A document without shared objects. \<open>sep_list P xs ys A\<close>: the elements of \<open>xs\<close> and \<open>ys\<close>
  are related by \<open>P\<close> one by one, each on a set of addresses of its own, no two of these
  sets meet, and \<open>A\<close> is their union.
\<close>

inductive sep_list ::
    "('a \<Rightarrow> 'b \<Rightarrow> addr set \<Rightarrow> bool) \<Rightarrow> 'a list \<Rightarrow> 'b list \<Rightarrow> addr set \<Rightarrow> bool"
  for P :: "'a \<Rightarrow> 'b \<Rightarrow> addr set \<Rightarrow> bool" where
  sep_Nil: "sep_list P [] [] {}"
| sep_Cons: "P x y A \<Longrightarrow> sep_list P xs ys B \<Longrightarrow> A \<inter> B = {}
     \<Longrightarrow> sep_list P (x # xs) (y # ys) (A \<union> B)"

lemma sep_list_mono [mono]:
  "(\<And>x y A. P x y A \<longrightarrow> Q x y A) \<Longrightarrow> sep_list P xs ys A \<longrightarrow> sep_list Q xs ys A"
proof
  assume pq: "\<And>x y A. P x y A \<longrightarrow> Q x y A" and "sep_list P xs ys A"
  from this(2) show "sep_list Q xs ys A"
    by induction (auto intro: sep_list.intros simp: pq)
qed

text \<open>
  \<open>repr h v t A\<close>: in the heap \<open>h\<close> the value \<open>v\<close> stands for the document \<open>t\<close>, the
  \<^verbatim>\<open>dict\<close> objects of the document are those at the addresses \<open>A\<close>, and no object occurs
  at two places of the document. This is the document of a YAML file without aliases.
  The keys of a \<^verbatim>\<open>dict\<close> are distinct.
\<close>

inductive repr :: "'f heap \<Rightarrow> 'f pyval \<Rightarrow> 'f yaml \<Rightarrow> addr set \<Rightarrow> bool"
  for h :: "'f heap" where
  repr_None: "repr h VNone YNone {}"
| repr_Bool: "repr h (VBool b) (YBool b) {}"
| repr_Int: "repr h (VInt i) (YInt i) {}"
| repr_Float: "repr h (VFloat x) (YFloat x) {}"
| repr_Str: "repr h (VStr s) (YStr s) {}"
| repr_List: "sep_list (repr h) vs ts A \<Longrightarrow> repr h (VList vs) (YList ts) A"
| repr_Dict: "h a = Some kvs \<Longrightarrow> distinct (map fst kvs) \<Longrightarrow>
     sep_list (\<lambda>kv it A. fst kv = fst it \<and> repr h (snd kv) (snd it) A) kvs its A \<Longrightarrow>
     a \<notin> A \<Longrightarrow> repr h (VDict a) (YDict its) (insert a A)"

abbreviation repr_items ::
    "'f heap \<Rightarrow> 'f pydict \<Rightarrow> (string \<times> 'f yaml) list \<Rightarrow> addr set \<Rightarrow> bool" where
  "repr_items h \<equiv> sep_list (\<lambda>kv it A. fst kv = fst it \<and> repr h (snd kv) (snd it) A)"

inductive_cases sep_list_NilE: "sep_list P xs [] A"

inductive_cases sep_list_ConsE: "sep_list P xs (y # ys) A"

inductive_cases repr_DictE: "repr h (VDict a) t A"


text \<open>
  Three heaps for running the model. In \<open>alias_example\<close> the mapping at address 0 holds
  the one object at address 1 under both of its keys, as \<^verbatim>\<open>yaml.safe_load\<close> returns for
  \<^verbatim>\<open>{a: &d {x: 1}, b: *d}\<close>; the mappings at 2 and at 5 are \<^verbatim>\<open>{a: {x: 2}, b: {x: 3}}\<close> with
  the keys in the two orders, and the mapping at 6 is \<^verbatim>\<open>{a: {y: 2}}\<close>. In \<open>tree_example\<close> no
  object occurs twice: the mapping at 0 is \<^verbatim>\<open>{a: {x: 1}, b: 2}\<close>, the mappings at 2 and at
  4 are \<^verbatim>\<open>{c: 3, a: {y: 4, z: 5}}\<close> with the keys in two orders at both levels. In
  \<open>cycle_example\<close> the mapping at address 0 holds itself under the key \<^verbatim>\<open>self\<close>, as
  \<^verbatim>\<open>yaml.safe_load\<close> returns for \<^verbatim>\<open>&d {self: *d, k: 1}\<close>, and the mapping at 1 is
  \<^verbatim>\<open>{k: 2, self: {k: 3}}\<close>.
\<close>

definition alias_example :: "unit heap" where
  "alias_example =
     [0 \<mapsto> [(''a'', VDict 1), (''b'', VDict 1)],
      1 \<mapsto> [(''x'', VInt 1)],
      2 \<mapsto> [(''a'', VDict 3), (''b'', VDict 4)],
      3 \<mapsto> [(''x'', VInt 2)],
      4 \<mapsto> [(''x'', VInt 3)],
      5 \<mapsto> [(''b'', VDict 4), (''a'', VDict 3)],
      6 \<mapsto> [(''a'', VDict 7)],
      7 \<mapsto> [(''y'', VInt 2)]]"

definition cycle_example :: "unit heap" where
  "cycle_example =
     [0 \<mapsto> [(''self'', VDict 0), (''k'', VInt 1)],
      1 \<mapsto> [(''k'', VInt 2), (''self'', VDict 2)],
      2 \<mapsto> [(''k'', VInt 3)]]"

definition tree_example :: "unit heap" where
  "tree_example =
     [0 \<mapsto> [(''a'', VDict 1), (''b'', VInt 2)],
      1 \<mapsto> [(''x'', VInt 1)],
      2 \<mapsto> [(''c'', VInt 3), (''a'', VDict 3)],
      3 \<mapsto> [(''y'', VInt 4), (''z'', VInt 5)],
      4 \<mapsto> [(''a'', VDict 5), (''c'', VInt 3)],
      5 \<mapsto> [(''z'', VInt 5), (''y'', VInt 4)]]"


subsection \<open>The merge on values\<close>

text \<open>
  The merge as a function on documents: \<open>deep_merge_value dest source\<close> is the document
  in \<open>dest\<close> after the call, or the exception the call raises, when \<open>dest\<close> and \<open>source\<close>
  are documents without shared objects; \<open>merge_loop_value\<close> is the loop over the items
  of \<open>source\<close> that are left. The update in place of the object \<open>dest[key]\<close> shows in
  \<open>dest\<close> as a new value at \<open>key\<close>. \<open>deep_merge_on_values\<close> below shows that \<open>deep_merge\<close>
  computes this function on a heap in which the two documents share no object.
\<close>

function deep_merge_value :: "'f yaml \<Rightarrow> 'f yaml \<Rightarrow> error + 'f yaml"
  and merge_loop_value :: "'f yaml \<Rightarrow> (string \<times> 'f yaml) list \<Rightarrow> error + 'f yaml" where
  "deep_merge_value dest source =
     (case items source of
        Inl e \<Rightarrow> Inl e
      | Inr kvs \<Rightarrow> merge_loop_value dest kvs)"
| "merge_loop_value dest [] = Inr dest"
| "merge_loop_value dest ((key, value) # rest) =
     (case contains dest key of
        Inl e \<Rightarrow> Inl e
      | Inr True \<Rightarrow>
          (case getitem dest key of
             Inl e \<Rightarrow> Inl e
           | Inr sub \<Rightarrow>
               if isdict sub \<and> isdict value then
                 (case deep_merge_value sub value of
                    Inl e \<Rightarrow> Inl e
                  | Inr sub' \<Rightarrow>
                      (case setitem dest key sub' of
                         Inl e \<Rightarrow> Inl e
                       | Inr dest' \<Rightarrow> merge_loop_value dest' rest))
               else
                 (case setitem dest key value of
                    Inl e \<Rightarrow> Inl e
                  | Inr dest' \<Rightarrow> merge_loop_value dest' rest))
      | Inr False \<Rightarrow>
          (case setitem dest key value of
             Inl e \<Rightarrow> Inl e
           | Inr dest' \<Rightarrow> merge_loop_value dest' rest))"
  by pat_completeness auto

termination
  by (relation "measure (\<lambda>x. case x of
          Inl (d, s) \<Rightarrow> 2 * size s
        | Inr (d, kvs) \<Rightarrow> 2 * items_size kvs + 1)")
    (auto dest: items_smaller)

declare deep_merge_value.simps [simp del]

text \<open>
  What \<open>deep_merge_value\<close> returns on two mappings, as a function of their items
  (\<open>deep_merge_value_dicts\<close> below shows that it is).
\<close>

function merged :: "(string \<times> 'f yaml) list \<Rightarrow> (string \<times> 'f yaml) list \<Rightarrow> (string \<times> 'f yaml) list" where
  "merged d [] = d"
| "merged d ((key, value) # rest) =
     (case (map_of d key, value) of
        (Some (YDict sd), YDict sv) \<Rightarrow> merged (dict_set d key (YDict (merged sd sv))) rest
      | _ \<Rightarrow> merged (dict_set d key value) rest)"
  by pat_completeness auto

termination
  by (relation "measure (\<lambda>(d, kvs). items_size kvs)") auto

text \<open>
  The value that one turn of the loop stores at a key: \<open>old\<close> is what \<open>dest\<close> holds at
  the key before, \<open>v\<close> the value of \<open>source\<close>.
\<close>

definition merge_value :: "'f yaml option \<Rightarrow> 'f yaml \<Rightarrow> 'f yaml" where
  "merge_value old v =
     (case old of
        Some (YDict sd) \<Rightarrow> (case v of YDict sv \<Rightarrow> YDict (merged sd sv) | _ \<Rightarrow> v)
      | _ \<Rightarrow> v)"

text \<open>
  A well-formed document: the keys of every mapping in it are distinct, as the keys of a
  Python \<^verbatim>\<open>dict\<close> always are.
\<close>

fun well_formed :: "'f yaml \<Rightarrow> bool" where
  "well_formed (YDict kvs) = (distinct (map fst kvs) \<and> (\<forall>kv \<in> set kvs. well_formed (snd kv)))"
| "well_formed (YList xs) = (\<forall>x \<in> set xs. well_formed x)"
| "well_formed _ = True"

text \<open>
  Two documents are the same up to the order in which the mappings in them list their
  keys: Python's equality of \<^verbatim>\<open>dict\<close>s does not look at the insertion order.
\<close>

fun same_mapping :: "'f yaml \<Rightarrow> 'f yaml \<Rightarrow> bool" where
  "same_mapping (YDict a) (YDict b) =
     (fst ` set a = fst ` set b \<and>
      (\<forall>kv \<in> set a. case map_of b (fst kv) of
                       None \<Rightarrow> False
                     | Some w \<Rightarrow> same_mapping (snd kv) w))"
| "same_mapping (YList xs) (YList ys) = list_all2 same_mapping xs ys"
| "same_mapping x y = (x = y)"


subsection \<open>The state of a \<^verbatim>\<open>ConfigManager\<close> and the loading of the documents\<close>

text \<open>
  The state is the two attributes of the object and the calls made to the module's logger,
  in order: the level, the message up to the formatted exception, and the exception that
  the message formats, if any. Whether a handler prints a record depends on the levels
  configured at run time and is not modelled.
\<close>

datatype level = DEBUG | INFO | WARNING | ERROR

type_synonym log_record = "level \<times> string \<times> error option"

record 'f config_manager =
  config :: "'f yaml"
  env :: string
  logged :: "log_record list"

definition log_call ::
  "level \<Rightarrow> string \<Rightarrow> error option \<Rightarrow> 'f config_manager \<Rightarrow> 'f config_manager" where
  "log_call lvl msg exc m = m\<lparr>logged := logged m @ [(lvl, msg, exc)]\<rparr>"

text \<open>
  \<^verbatim>\<open>
  def _load_default_config(self):
      try:
          with open(DEFAULT_CONFIG_FILE, "r") as file:
              self.config = yaml.safe_load(file)
          logger.debug("Loaded default configuration")
      except Exception as e:
          logger.error(f"Error loading default config: {e}")
          sys.exit(1)
  \<close>
  The argument \<open>doc\<close> is what opening and parsing the file gives: the document, or the
  exception of \<^verbatim>\<open>open\<close> or \<^verbatim>\<open>yaml.safe_load\<close>. A method returns the new state and
  either its result or the exception that leaves it.
\<close>

definition load_default_config ::
  "'f config_manager \<Rightarrow> error + 'f yaml \<Rightarrow> 'f config_manager \<times> (error + unit)" where
  "load_default_config m doc =
     (case doc of
        Inr loaded \<Rightarrow>
          (log_call DEBUG ''Loaded default configuration'' None (m\<lparr>config := loaded\<rparr>), Inr ())
      | Inl e \<Rightarrow>
          if is_Exception e then
            (log_call ERROR ''Error loading default config: '' (Some e) m, Inl (SystemExit 1))
          else (m, Inl e))"

text \<open>
  \<^verbatim>\<open>
  def _load_custom_config(self, config_path):
      try:
          with open(config_path, "r") as file:
              custom_config = yaml.safe_load(file)
          self._deep_merge(self.config, custom_config)
          logger.debug(f"Loaded custom configuration from {config_path}")
      except Exception as e:
          logger.error(f"Error loading custom config from {config_path}: {e}")
  \<close>
  The state holds the configuration as a value, and so is a loaded document: the merge
  is \<open>deep_merge_value\<close>, the merge of two documents without shared objects. A merge
  that raises has then assigned nothing (\<open>deep_merge_value_raises\<close> below), so the
  configuration is the one before the call.
\<close>

definition load_custom_config ::
  "'f config_manager \<Rightarrow> string \<Rightarrow> error + 'f yaml \<Rightarrow> 'f config_manager \<times> (error + unit)" where
  "load_custom_config m config_path doc =
     (case (case doc of
              Inl e \<Rightarrow> Inl e
            | Inr custom_config \<Rightarrow> deep_merge_value (config m) custom_config) of
        Inr dest \<Rightarrow>
          (log_call DEBUG (''Loaded custom configuration from '' @ config_path) None
             (m\<lparr>config := dest\<rparr>), Inr ())
      | Inl e \<Rightarrow>
          if is_Exception e then
            (log_call ERROR (''Error loading custom config from '' @ config_path @ '': '')
               (Some e) m, Inr ())
          else (m, Inl e))"

text \<open>
  The loading steps of \<^verbatim>\<open>ConfigManager.__init__\<close>: the empty configuration, the
  environment name, the default document, then the custom document when a path was given
  (by the argument or by the environment variable). \<open>custom\<close> is that path with what
  opening and parsing it gives, or \<open>None\<close> when no path was given. The set-up of the log
  file that follows in \<^verbatim>\<open>__init__\<close> is not modelled.
\<close>

definition load_configs ::
  "string \<Rightarrow> error + 'f yaml \<Rightarrow> (string \<times> (error + 'f yaml)) option
     \<Rightarrow> 'f config_manager \<times> (error + unit)" where
  "load_configs env_name default_doc custom =
     (case load_default_config \<lparr>config = YDict [], env = env_name, logged = []\<rparr> default_doc of
        (m, Inl e) \<Rightarrow> (m, Inl e)
      | (m, Inr _) \<Rightarrow>
          (case custom of
             None \<Rightarrow> (m, Inr ())
           | Some (config_path, doc) \<Rightarrow> load_custom_config m config_path doc))"


subsection \<open>The accessors\<close>

text \<open>
  \<^verbatim>\<open>
  def get_matlab_path(self):
      return self.config["global"]["matlab"].get(
          self.env, self.config["global"]["matlab"]["local"])
  \<close>
  The default is an argument of the call, so it is evaluated before \<^verbatim>\<open>get\<close> runs.
\<close>

definition get_matlab_path :: "'f config_manager \<Rightarrow> error + 'f yaml" where
  "get_matlab_path m =
     (case getpath (config m) [''global'', ''matlab''] of
        Inl e \<Rightarrow> Inl e
      | Inr matlab \<Rightarrow>
          (case get_method matlab of
             Inl e \<Rightarrow> Inl e
           | Inr get \<Rightarrow>
               (case getpath (config m) [''global'', ''matlab'', ''local''] of
                  Inl e \<Rightarrow> Inl e
                | Inr dflt \<Rightarrow> Inr (get (env m) dflt))))"

text \<open>\<^verbatim>\<open>return self.config["global"]["eeglab"]["path"]\<close>\<close>

definition get_eeglab_path :: "'f config_manager \<Rightarrow> error + 'f yaml" where
  "get_eeglab_path m = getpath (config m) [''global'', ''eeglab'', ''path'']"

text \<open>\<^verbatim>\<open>return self.config["global"]["eeglab"]["startup_options"]\<close>\<close>

definition get_matlab_startup_options :: "'f config_manager \<Rightarrow> error + 'f yaml" where
  "get_matlab_startup_options m = getpath (config m) [''global'', ''eeglab'', ''startup_options'']"

text \<open>
  \<^verbatim>\<open>
  def get_implementation_config(self, implementation):
      if implementation in self.config["implementations"]:
          return self.config["implementations"][implementation]
      else:
          logger.warning(f"No configuration found for implementation: {implementation}")
          return {}
  \<close>
\<close>

definition get_implementation_config ::
  "'f config_manager \<Rightarrow> string \<Rightarrow> 'f config_manager \<times> (error + 'f yaml)" where
  "get_implementation_config m implementation =
     (case getitem (config m) ''implementations'' of
        Inl e \<Rightarrow> (m, Inl e)
      | Inr implementations \<Rightarrow>
          (case contains implementations implementation of
             Inl e \<Rightarrow> (m, Inl e)
           | Inr True \<Rightarrow> (m, getpath (config m) [''implementations'', implementation])
           | Inr False \<Rightarrow>
               (log_call WARNING
                  (''No configuration found for implementation: '' @ implementation) None m,
                Inr (YDict []))))"

text \<open>\<^verbatim>\<open>return self.config["global"]["amica"]\<close>\<close>

definition get_amica_params :: "'f config_manager \<Rightarrow> error + 'f yaml" where
  "get_amica_params m = getpath (config m) [''global'', ''amica'']"

text \<open>\<^verbatim>\<open>return self.config["project"]["structure"]\<close>\<close>

definition get_project_structure :: "'f config_manager \<Rightarrow> error + 'f yaml" where
  "get_project_structure m = getpath (config m) [''project'', ''structure'']"

text \<open>
  \<^verbatim>\<open>
  def export_matlab_config(self, implementation):
      matlab_config = {
          "amica": self.get_amica_params(),
          "implementation": self.get_implementation_config(implementation),
          "eeglab_path": self.get_eeglab_path(),
      }
      if implementation == "strengthen":
          matlab_config["project"] = self.get_project_structure()
      temp_file = tempfile.NamedTemporaryFile(delete=False, suffix='.json')
      with open(temp_file.name, 'w') as f:
          json.dump(matlab_config, f, indent=2)
      return temp_file.name
  \<close>
  The result of the model is the mapping \<^verbatim>\<open>matlab_config\<close> that is handed to
  \<^verbatim>\<open>json.dump\<close>; creating and writing the temporary file is not modelled.
\<close>

definition export_matlab_config ::
  "'f config_manager \<Rightarrow> string \<Rightarrow> 'f config_manager \<times> (error + 'f yaml)" where
  "export_matlab_config m implementation =
     (case get_amica_params m of
        Inl e \<Rightarrow> (m, Inl e)
      | Inr amica \<Rightarrow>
          (case get_implementation_config m implementation of
             (m', Inl e) \<Rightarrow> (m', Inl e)
           | (m', Inr impl) \<Rightarrow>
               (case get_eeglab_path m' of
                  Inl e \<Rightarrow> (m', Inl e)
                | Inr eeglab_path \<Rightarrow>
                    (let matlab_config =
                           [(''amica'', amica), (''implementation'', impl),
                            (''eeglab_path'', eeglab_path)]
                     in if implementation = ''strengthen'' then
                          (case get_project_structure m' of
                             Inl e \<Rightarrow> (m', Inl e)
                           | Inr project \<Rightarrow>
                               (m', Inr (YDict (dict_set matlab_config ''project'' project))))
                        else (m', Inr (YDict matlab_config))))))"


section \<open>The elapsed-time aggregator\<close>

text \<open>
  Python's \<^verbatim>\<open>float\<close> is a parameter of the model: a type \<open>'f\<close> with the operations that
  \<^verbatim>\<open>calculate_total_time\<close> uses. \<open>float_of_str\<close> is the value of a float literal, \<open>None\<close>
  for a string that is not one; \<open>float_round\<close> is the float nearest to an exact number,
  which is how Python converts an integer operand and divides one integer by another;
  \<open>float_add\<close> and \<open>float_div\<close> are \<^verbatim>\<open>+\<close> and \<^verbatim>\<open>/\<close> on two floats, which raise nothing when
  the divisor is not zero.
\<close>

record 'f float_ops =
  float_of_str :: "string \<Rightarrow> 'f option"
  float_round :: "rat \<Rightarrow> 'f"
  float_add :: "'f \<Rightarrow> 'f \<Rightarrow> 'f"
  float_div :: "'f \<Rightarrow> 'f \<Rightarrow> 'f"

text \<open>
  A Python number: \<^verbatim>\<open>total_seconds\<close> is the integer 0 until the first float is added
  to it.
\<close>

datatype 'f number = PInt int | PFloat 'f

text \<open>The conversion of an operand to a float.\<close>

fun to_float :: "'f float_ops \<Rightarrow> 'f number \<Rightarrow> 'f" where
  "to_float F (PInt k) = float_round F (of_int k)"
| "to_float F (PFloat x) = x"

text \<open>\<^verbatim>\<open>n + x\<close> for a number \<open>n\<close> and a float \<open>x\<close>: a float.\<close>

definition add_float :: "'f float_ops \<Rightarrow> 'f number \<Rightarrow> 'f \<Rightarrow> 'f number" where
  "add_float F n x = PFloat (float_add F (to_float F n) x)"

text \<open>
  \<^verbatim>\<open>n / k\<close> for a number \<open>n\<close> and an integer \<open>k\<close> that is not zero: a float, for two
  integers the one nearest to the exact quotient.
\<close>

fun truediv :: "'f float_ops \<Rightarrow> 'f number \<Rightarrow> int \<Rightarrow> 'f" where
  "truediv F (PInt i) k = float_round F (of_int i / of_int k)"
| "truediv F (PFloat x) k = float_div F x (float_round F (of_int k))"

text \<open>
  \<^verbatim>\<open>c.isspace()\<close> for the characters below 256, and \<^verbatim>\<open>s.strip()\<close>, which removes the
  white space at both ends.
\<close>

definition isspace :: "char \<Rightarrow> bool" where
  "isspace c = (of_char c \<in> {9, 10, 11, 12, 13, 28, 29, 30, 31, 32, 133, 160 :: nat})"

definition strip :: "string \<Rightarrow> string" where
  "strip s = rev (dropWhile isspace (rev (dropWhile isspace s)))"

text \<open>
  \<^verbatim>\<open>float(s)\<close> for a string: the white space at both ends is ignored, and what is left
  must be a float literal; the empty string is none. \<^verbatim>\<open>ValueError\<close> is the one exception
  that \<^verbatim>\<open>float\<close> raises on a string.
\<close>

definition py_float :: "'f float_ops \<Rightarrow> string \<Rightarrow> error + 'f" where
  "py_float F s =
     (let literal = strip s
      in if literal = [] then Inl ValueError
         else (case float_of_str F literal of None \<Rightarrow> Inl ValueError | Some x \<Rightarrow> Inr x))"

text \<open>\<^verbatim>\<open>s.index(c)\<close>: the position of the first \<open>c\<close> in \<open>s\<close>, \<^verbatim>\<open>ValueError\<close> when there is none.\<close>

fun str_index :: "string \<Rightarrow> char \<Rightarrow> error + nat" where
  "str_index [] c = Inl ValueError"
| "str_index (x # xs) c =
     (if x = c then Inr 0
      else (case str_index xs c of Inl e \<Rightarrow> Inl e | Inr i \<Rightarrow> Inr (Suc i)))"

text \<open>
  \<^verbatim>\<open>s[i:j]\<close> for indices that are not negative: the characters from position \<open>i\<close> up to,
  and without, position \<open>j\<close>; empty when \<open>j \<le> i\<close>.
\<close>

definition slice :: "string \<Rightarrow> nat \<Rightarrow> nat \<Rightarrow> string" where
  "slice s i j = drop i (take j s)"

text \<open>
  \<^verbatim>\<open>
  def calculate_total_time(file_path):
      total_seconds = 0
      with open(file_path, 'r') as file:
          for line in file:
              if '(' in line and 's' in line:
                  try:
                      start_idx = line.index('(') + 1
                      end_idx = line.index('s')
                      time_in_seconds = float(line[start_idx:end_idx].strip())
                      total_seconds += time_in_seconds
                  except ValueError:
                      continue
      total_hours = total_seconds / 3600
      return total_hours
  \<close>
  \<open>try_body\<close> is the body of the \<^verbatim>\<open>try\<close>: the new total, or the exception it raises.
  \<open>scan_line\<close> is one turn of the loop, \<open>scan_lines\<close> the loop. The argument \<open>file\<close> of
  \<open>calculate_total_time\<close> is what opening the file gives: its lines, or the exception of
  \<^verbatim>\<open>open\<close>, which nothing catches.
\<close>

definition try_body :: "'f float_ops \<Rightarrow> 'f number \<Rightarrow> string \<Rightarrow> error + 'f number" where
  "try_body F total_seconds line =
     (case str_index line CHR ''('' of
        Inl e \<Rightarrow> Inl e
      | Inr i \<Rightarrow>
          (let start_idx = i + 1 in
           case str_index line CHR ''s'' of
             Inl e \<Rightarrow> Inl e
           | Inr end_idx \<Rightarrow>
               (case py_float F (strip (slice line start_idx end_idx)) of
                  Inl e \<Rightarrow> Inl e
                | Inr time_in_seconds \<Rightarrow> Inr (add_float F total_seconds time_in_seconds))))"

definition scan_line :: "'f float_ops \<Rightarrow> 'f number \<Rightarrow> string \<Rightarrow> error + 'f number" where
  "scan_line F total_seconds line =
     (if CHR ''('' \<in> set line \<and> CHR ''s'' \<in> set line then
        (case try_body F total_seconds line of
           Inr new_total \<Rightarrow> Inr new_total
         | Inl ValueError \<Rightarrow> Inr total_seconds
         | Inl e \<Rightarrow> Inl e)
      else Inr total_seconds)"

fun scan_lines :: "'f float_ops \<Rightarrow> 'f number \<Rightarrow> string list \<Rightarrow> error + 'f number" where
  "scan_lines F total_seconds [] = Inr total_seconds"
| "scan_lines F total_seconds (line # lines) =
     (case scan_line F total_seconds line of
        Inl e \<Rightarrow> Inl e
      | Inr new_total \<Rightarrow> scan_lines F new_total lines)"

definition calculate_total_time :: "'f float_ops \<Rightarrow> error + string list \<Rightarrow> error + 'f" where
  "calculate_total_time F file =
     (case file of
        Inl e \<Rightarrow> Inl e
      | Inr lines \<Rightarrow>
          (case scan_lines F (PInt 0) lines of
             Inl e \<Rightarrow> Inl e
           | Inr total_seconds \<Rightarrow> Inr (truediv F total_seconds 3600)))"

text \<open>
  The duration token as the specification words it: the substring between the first
  \<^verbatim>\<open>(\<close> of the line and the first \<^verbatim>\<open>s\<close> that follows this parenthesis.
\<close>

definition spec_token :: "string \<Rightarrow> string" where
  "spec_token line =
     takeWhile (\<lambda>c. c \<noteq> CHR ''s'') (drop 1 (dropWhile (\<lambda>c. c \<noteq> CHR ''('') line))"

text \<open>
  An instance of the float operations for running the model on examples: exact rational
  arithmetic, and plain decimal literals (digits with at most one point among them) for
  \<open>float_of_str\<close>.
\<close>

definition digit :: "char \<Rightarrow> nat option" where
  "digit c = (let n = of_char c :: nat in if 48 \<le> n \<and> n \<le> 57 then Some (n - 48) else None)"

fun nat_of_digits :: "nat \<Rightarrow> string \<Rightarrow> nat option" where
  "nat_of_digits acc [] = Some acc"
| "nat_of_digits acc (c # cs) =
     (case digit c of None \<Rightarrow> None | Some d \<Rightarrow> nat_of_digits (10 * acc + d) cs)"

definition decimal :: "string \<Rightarrow> rat option" where
  "decimal s =
     (let ip = takeWhile (\<lambda>c. c \<noteq> CHR ''.'') s;
          fp = drop (Suc (length ip)) s
      in if ip @ fp = [] then None
         else (case nat_of_digits 0 (ip @ fp) of
                 None \<Rightarrow> None
               | Some n \<Rightarrow> Some (of_nat n / 10 ^ length fp)))"

definition exact_ops :: "rat float_ops" where
  "exact_ops =
     \<lparr>float_of_str = decimal, float_round = (\<lambda>q. q), float_add = (+), float_div = (/)\<rparr>"


section \<open>Properties of the merge on values\<close>

subsection \<open>Assignments to a key\<close>

lemma map_of_dict_set: "map_of (dict_set d k v) k' = (if k' = k then Some v else map_of d k')"
  by (induction d k v rule: dict_set.induct) auto

lemma keys_dict_set: "fst ` set (dict_set d k v) = insert k (fst ` set d)"
  by (induction d k v rule: dict_set.induct) auto

lemma distinct_dict_set: "distinct (map fst d) \<Longrightarrow> distinct (map fst (dict_set d k v))"
  by (induction d k v rule: dict_set.induct) (auto simp: keys_dict_set)

subsection \<open>On two mappings the merge never raises\<close>

lemma merged_step:
  "merged d ((key, value) # rest) =
     merged (dict_set d key
       (case map_of d key of
          Some (YDict sd) \<Rightarrow> (case value of YDict sv \<Rightarrow> YDict (merged sd sv) | _ \<Rightarrow> value)
        | _ \<Rightarrow> value)) rest"
  by (simp split: option.splits yaml.splits)

lemma merge_loop_value_step_dict:
  "merge_loop_value (YDict d) ((key, value) # rest) =
     (case map_of d key of
        Some (YDict sd) \<Rightarrow>
          (case value of
             YDict sv \<Rightarrow>
               (case merge_loop_value (YDict sd) sv of
                  Inl e \<Rightarrow> Inl e
                | Inr sub' \<Rightarrow> merge_loop_value (YDict (dict_set d key sub')) rest)
           | _ \<Rightarrow> merge_loop_value (YDict (dict_set d key value)) rest)
      | _ \<Rightarrow> merge_loop_value (YDict (dict_set d key value)) rest)"
proof (cases "map_of d key")
  case None
  then have "key \<notin> fst ` set d" by (simp add: map_of_eq_None_iff)
  with None show ?thesis by simp
next
  case (Some sub)
  then have "key \<in> fst ` set d" by (metis map_of_eq_None_iff option.distinct(1))
  with Some show ?thesis
    by (cases sub; cases "value") (simp_all add: deep_merge_value.simps split: sum.splits)
qed

lemma merge_loop_value_dict: "merge_loop_value (YDict d) kvs = Inr (YDict (merged d kvs))"
proof (induction "items_size kvs" arbitrary: d kvs rule: less_induct)
  case less
  show ?case
  proof (cases kvs)
    case Nil
    then show ?thesis by simp
  next
    case (Cons kv rest)
    obtain key v where kv: "kv = (key, v)" by (cases kv)
    have rest: "merge_loop_value (YDict d') rest = Inr (YDict (merged d' rest))" for d'
      using less[of rest d'] Cons by simp
    have sub: "merge_loop_value (YDict sd) sv = Inr (YDict (merged sd sv))" if "v = YDict sv" for sd sv
      using less[of sv sd] Cons kv that by simp
    show ?thesis
      unfolding Cons kv merge_loop_value_step_dict merged_step
      by (simp add: rest sub split: option.splits yaml.splits)
  qed
qed

lemma deep_merge_value_dicts: "deep_merge_value (YDict d) (YDict s) = Inr (YDict (merged d s))"
  by (simp add: deep_merge_value.simps merge_loop_value_dict)

lemma merge_loop_value_not_dict: "\<not> isdict dest \<Longrightarrow> \<exists>e. merge_loop_value dest (kv # rest) = Inl e"
  by (cases dest; cases kv) (auto split: sum.splits bool.splits)

lemma merge_loop_value_error:
  assumes "merge_loop_value dest kvs = Inl e"
  shows "\<not> isdict dest \<and> kvs \<noteq> [] \<and> e = TypeError"
proof (cases dest)
  case (YDict d)
  with assms show ?thesis by (simp add: merge_loop_value_dict)
next
  case YNone
  with assms show ?thesis by (cases kvs) (auto split: sum.splits bool.splits)
next
  case (YBool b)
  with assms show ?thesis by (cases kvs) (auto split: sum.splits bool.splits)
next
  case (YInt i)
  with assms show ?thesis by (cases kvs) (auto split: sum.splits bool.splits)
next
  case (YFloat x)
  with assms show ?thesis by (cases kvs) (auto split: sum.splits bool.splits)
next
  case (YStr s)
  with assms show ?thesis by (cases kvs) (auto split: sum.splits bool.splits)
next
  case (YList xs)
  with assms show ?thesis by (cases kvs) (auto split: sum.splits bool.splits)
qed

lemma deep_merge_value_error:
  assumes "deep_merge_value dest source = Inl e"
  shows "e = AttributeError \<and> \<not> isdict source \<or> e = TypeError \<and> \<not> isdict dest"
proof (cases source)
  case (YDict kvs)
  with assms have "merge_loop_value dest kvs = Inl e" by (simp add: deep_merge_value.simps)
  then show ?thesis by (auto dest: merge_loop_value_error)
qed (use assms in \<open>simp_all add: deep_merge_value.simps\<close>)

text \<open>
  On values the merge raises only when one of its arguments is not a mapping, and then
  before any assignment: \<^verbatim>\<open>AttributeError\<close> when \<open>source\<close> is not a mapping (it has no
  \<^verbatim>\<open>items\<close>), \<^verbatim>\<open>TypeError\<close> at the first key of \<open>source\<close> when \<open>dest\<close> is not a mapping.
  Both are subclasses of \<^verbatim>\<open>Exception\<close>. With an empty \<open>source\<close> the loop does not run and
  \<open>dest\<close> stays as it is, whatever it is.
\<close>

theorem deep_merge_value_raises:
  "(\<not> isdict source \<longrightarrow> deep_merge_value dest source = Inl AttributeError) \<and>
   deep_merge_value dest (YDict []) = Inr dest \<and>
   (\<not> isdict dest \<longrightarrow> deep_merge_value dest (YDict (kv # rest)) = Inl TypeError) \<and>
   (\<forall>e. deep_merge_value dest source = Inl e \<longrightarrow>
      is_Exception e \<and> (\<not> isdict source \<or> \<not> isdict dest))"
proof -
  have 1: "deep_merge_value dest source = Inl AttributeError" if "\<not> isdict source"
    using that by (cases source) (simp_all add: deep_merge_value.simps)
  have 2: "deep_merge_value dest (YDict []) = Inr dest" by (simp add: deep_merge_value.simps)
  have 3: "deep_merge_value dest (YDict (kv # rest)) = Inl TypeError" if "\<not> isdict dest"
  proof -
    from that obtain e where "merge_loop_value dest (kv # rest) = Inl e"
      using merge_loop_value_not_dict by blast
    moreover from this have "e = TypeError" by (auto dest: merge_loop_value_error)
    ultimately show ?thesis by (simp add: deep_merge_value.simps)
  qed
  have 4: "is_Exception e \<and> (\<not> isdict source \<or> \<not> isdict dest)"
    if "deep_merge_value dest source = Inl e" for e
    using deep_merge_value_error[OF that] by auto
  from 1 2 3 4 show ?thesis by blast
qed

theorem deep_merge_value_raises_witness:
  "\<not> isdict (YNone :: unit yaml) \<and>
   deep_merge_value (YDict [(''a'', YInt 1 :: unit yaml)]) YNone = Inl AttributeError \<and>
   \<not> isdict (YList [YStr ''a''] :: unit yaml) \<and>
   deep_merge_value (YList [YStr ''a'' :: unit yaml]) (YDict [(''a'', YInt 1)]) = Inl TypeError \<and>
   is_Exception TypeError"
  using deep_merge_value_raises[of "YNone :: unit yaml" "YDict [(''a'', YInt 1)]"]
    deep_merge_value_raises[of "YDict [(''a'', YInt 1)]" "YList [YStr ''a''] :: unit yaml" "(''a'', YInt 1)" "[]"]
  by simp

subsection \<open>The keys and the values of the merged mapping\<close>

lemma merged_Cons:
  "merged d ((key, value) # rest) = merged (dict_set d key (merge_value (map_of d key) value)) rest"
  unfolding merge_value_def by (rule merged_step)

lemma keys_merged: "fst ` set (merged d s) = fst ` set d \<union> fst ` set s"
proof (induction s arbitrary: d)
  case Nil
  show ?case by simp
next
  case (Cons kv s)
  obtain key v where kv: "kv = (key, v)" by (cases kv)
  show ?case unfolding kv merged_Cons Cons.IH by (simp add: keys_dict_set)
qed

lemma map_of_merged:
  "distinct (map fst s) \<Longrightarrow>
   map_of (merged d s) k =
     (case map_of s k of None \<Rightarrow> map_of d k | Some v \<Rightarrow> Some (merge_value (map_of d k) v))"
proof (induction s arbitrary: d)
  case Nil
  show ?case by simp
next
  case (Cons kv s)
  obtain key v where kv: "kv = (key, v)" by (cases kv)
  from Cons.prems kv have d: "distinct (map fst s)" and nk: "map_of s key = None"
    by (auto simp: map_of_eq_None_iff)
  show ?case
  proof (cases "k = key")
    case True
    then show ?thesis unfolding kv merged_Cons Cons.IH[OF d] by (simp add: nk map_of_dict_set split: option.splits)
  next
    case False
    then show ?thesis unfolding kv merged_Cons Cons.IH[OF d] by (simp add: map_of_dict_set split: option.splits)
  qed
qed

lemma distinct_merged: "distinct (map fst d) \<Longrightarrow> distinct (map fst (merged d s))"
proof (induction s arbitrary: d)
  case Nil
  then show ?case by simp
next
  case (Cons kv s)
  obtain key v where kv: "kv = (key, v)" by (cases kv)
  show ?case unfolding kv merged_Cons by (rule Cons.IH) (rule distinct_dict_set[OF Cons.prems])
qed

text \<open>The two examples of the specification.\<close>

lemma deep_merge_value_examples:
  "deep_merge_value (YDict [(''a'', YInt 1)]) (YDict [(''a'', YDict [(''x'', YInt 2)])])
     = Inr (YDict [(''a'', YDict [(''x'', YInt 2)])])"
  "deep_merge_value (YDict [(''a'', YDict [(''x'', YInt 1)])]) (YDict [(''a'', YDict [(''y'', YInt 2)])])
     = Inr (YDict [(''a'', YDict [(''x'', YInt 1), (''y'', YInt 2)])])"
  by (simp_all add: deep_merge_value.simps)

subsection \<open>Well-formed documents and the order of the keys\<close>

lemma well_formed_lookup: "well_formed (YDict kvs) \<Longrightarrow> map_of kvs k = Some v \<Longrightarrow> well_formed v"
  by (auto dest!: map_of_SomeD)

lemma well_formed_dictI:
  "distinct (map fst kvs) \<Longrightarrow> (\<And>k v. map_of kvs k = Some v \<Longrightarrow> well_formed v) \<Longrightarrow> well_formed (YDict kvs)"
  by (auto simp: map_of_eq_Some_iff)

lemma item_size_less: "(k, v) \<in> set kvs \<Longrightarrow> size v < Suc (items_size kvs)"
  by (induction kvs) auto

lemma map_of_size_less: "map_of kvs k = Some (YDict sv) \<Longrightarrow> items_size sv < items_size kvs"
proof -
  assume "map_of kvs k = Some (YDict sv)"
  then have "(k, YDict sv) \<in> set kvs" by (rule map_of_SomeD)
  then have "size (YDict sv) < Suc (items_size kvs)" by (rule item_size_less)
  then show ?thesis by simp
qed

lemma well_formed_merged: "well_formed (YDict d) \<Longrightarrow> well_formed (YDict s) \<Longrightarrow> well_formed (YDict (merged d s))"
proof (induction "items_size s" arbitrary: d s rule: less_induct)
  case less
  have ds: "distinct (map fst s)" using less.prems(2) by simp
  show ?case
  proof (rule well_formed_dictI)
    show "distinct (map fst (merged d s))" using less.prems(1) by (simp add: distinct_merged)
  next
    fix k v assume kv: "map_of (merged d s) k = Some v"
    show "well_formed v"
    proof (cases "map_of s k")
      case None
      with kv have "map_of d k = Some v" by (simp add: map_of_merged[OF ds])
      with less.prems(1) show ?thesis by (rule well_formed_lookup)
    next
      case (Some x)
      with kv have v: "v = merge_value (map_of d k) x" by (simp add: map_of_merged[OF ds])
      have wx: "well_formed x" using less.prems(2) Some by (rule well_formed_lookup)
      show ?thesis
      proof (cases "\<exists>sd sv. map_of d k = Some (YDict sd) \<and> x = YDict sv")
        case True
        then obtain sd sv where sd: "map_of d k = Some (YDict sd)" and sv: "x = YDict sv" by blast
        have "well_formed (YDict sd)" using less.prems(1) sd by (rule well_formed_lookup)
        moreover have "items_size sv < items_size s" using Some sv by (simp add: map_of_size_less)
        ultimately have "well_formed (YDict (merged sd sv))" using wx sv less.hyps by blast
        then show ?thesis using v sd sv by (simp add: merge_value_def)
      next
        case False
        then have "v = x" unfolding v merge_value_def by (auto split: option.splits yaml.splits)
        with wx show ?thesis by simp
      qed
    qed
  qed
qed

text \<open>
  Merging two well-formed mappings gives a well-formed mapping: no key is ever
  listed twice.
\<close>

theorem deep_merge_value_well_formed:
  assumes "well_formed (YDict dest)" "well_formed (YDict source)"
  shows "\<exists>r. deep_merge_value (YDict dest) (YDict source) = Inr (YDict r) \<and> well_formed (YDict r)"
  unfolding deep_merge_value_dicts using well_formed_merged[OF assms] by simp

theorem deep_merge_value_well_formed_witness:
  "well_formed (YDict [(''a'', YDict [(''x'', YInt 1 :: unit yaml)])]) \<and>
   well_formed (YDict [(''a'', YDict [(''y'', YInt 2 :: unit yaml)])]) \<and>
   (\<exists>r. deep_merge_value (YDict [(''a'', YDict [(''x'', YInt 1 :: unit yaml)])])
           (YDict [(''a'', YDict [(''y'', YInt 2)])]) = Inr (YDict r) \<and>
        well_formed (YDict r))"
proof -
  have 1: "well_formed (YDict [(''a'', YDict [(''x'', YInt 1 :: unit yaml)])])" by simp
  have 2: "well_formed (YDict [(''a'', YDict [(''y'', YInt 2 :: unit yaml)])])" by simp
  from 1 2 deep_merge_value_well_formed[OF 1 2] show ?thesis by (intro conjI)
qed

lemma same_mapping_dictD:
  assumes "same_mapping (YDict a) (YDict b)" "map_of a k = Some v"
  shows "\<exists>w. map_of b k = Some w \<and> same_mapping v w"
proof -
  from assms(2) have "(k, v) \<in> set a" by (rule map_of_SomeD)
  moreover from assms(1) have "\<forall>kv \<in> set a. case map_of b (fst kv) of None \<Rightarrow> False | Some w \<Rightarrow> same_mapping (snd kv) w"
    by simp
  ultimately have "case map_of b (fst (k, v)) of None \<Rightarrow> False | Some w \<Rightarrow> same_mapping (snd (k, v)) w"
    by blast
  then show ?thesis by (cases "map_of b k") simp_all
qed

lemma same_mapping_keys: "same_mapping (YDict a) (YDict b) \<Longrightarrow> fst ` set a = fst ` set b"
  by simp

lemma same_mapping_dictI:
  assumes "distinct (map fst a)" "fst ` set a = fst ` set b"
    and "\<And>k v. map_of a k = Some v \<Longrightarrow> \<exists>w. map_of b k = Some w \<and> same_mapping v w"
  shows "same_mapping (YDict a) (YDict b)"
proof -
  have "case map_of b (fst kv) of None \<Rightarrow> False | Some w \<Rightarrow> same_mapping (snd kv) w"
    if "kv \<in> set a" for kv
  proof -
    from that assms(1) have "map_of a (fst kv) = Some (snd kv)" by simp
    from assms(3)[OF this] show ?thesis by auto
  qed
  with assms(2) show ?thesis by simp
qed

lemma same_mapping_refl: "well_formed x \<Longrightarrow> same_mapping x x"
proof (induction x)
  case (YList xs)
  then show ?case by (simp add: list_all2_same)
next
  case (YDict kvs)
  show ?case
  proof (rule same_mapping_dictI)
    show "distinct (map fst kvs)" using YDict.prems by simp
    show "fst ` set kvs = fst ` set kvs" ..
    fix k v assume kv: "map_of kvs k = Some v"
    then have "(k, v) \<in> set kvs" by (rule map_of_SomeD)
    moreover have "well_formed v" using YDict.prems kv by (rule well_formed_lookup)
    ultimately have "same_mapping v v" using YDict.IH[of "(k, v)" v] by simp
    with kv show "\<exists>w. map_of kvs k = Some w \<and> same_mapping v w" by blast
  qed
qed simp_all

lemma same_mapping_dict_right: "same_mapping (YDict a) y \<Longrightarrow> \<exists>b. y = YDict b"
  by (cases y) simp_all

lemma same_mapping_dict_left: "same_mapping x (YDict b) \<Longrightarrow> \<exists>a. x = YDict a"
  by (cases x) simp_all

text \<open>
  On well-formed documents, being the same up to the order of the keys is an equivalence,
  and it holds between a mapping and the one in which the value at one key has its own
  keys in another order.
\<close>

lemma same_mapping_sym:
  "well_formed x \<Longrightarrow> well_formed y \<Longrightarrow> same_mapping x y \<Longrightarrow> same_mapping y x"
proof (induction x arbitrary: y)
  case (YList xs)
  from YList.prems(3) obtain ys where y: "y = YList ys" by (cases y) simp_all
  with YList.prems have l: "list_all2 same_mapping xs ys" by simp
  have "list_all2 same_mapping ys xs"
  proof (rule list_all2_all_nthI)
    show "length ys = length xs" using l by (simp add: list_all2_lengthD)
  next
    fix n assume n: "n < length ys"
    then have nx: "n < length xs" using l by (simp add: list_all2_lengthD)
    then have "same_mapping (xs ! n) (ys ! n)" using l by (simp add: list_all2_nthD)
    moreover have "well_formed (xs ! n)" using YList.prems(1) nx by simp
    moreover have "well_formed (ys ! n)" using YList.prems(2) n y by simp
    moreover have "xs ! n \<in> set xs" using nx by simp
    ultimately show "same_mapping (ys ! n) (xs ! n)" using YList.IH by blast
  qed
  with y show ?case by simp
next
  case (YDict a)
  from YDict.prems(3) obtain b where y: "y = YDict b"
    by (blast dest: same_mapping_dict_right)
  have ab: "same_mapping (YDict a) (YDict b)" using YDict.prems(3) y by simp
  have wb: "well_formed (YDict b)" using YDict.prems(2) y by simp
  have "same_mapping (YDict b) (YDict a)"
  proof (rule same_mapping_dictI)
    show "distinct (map fst b)" using wb by simp
    show "fst ` set b = fst ` set a" using ab by simp
  next
    fix k w assume kw: "map_of b k = Some w"
    then have "(k, w) \<in> set b" by (rule map_of_SomeD)
    then have "k \<in> fst ` set b" by force
    then have "k \<in> fst ` set a" using same_mapping_keys[OF ab] by simp
    then obtain v where kv: "map_of a k = Some v"
      by (metis map_of_eq_None_iff not_Some_eq)
    from same_mapping_dictD[OF ab kv] kw have vw: "same_mapping v w" by auto
    have "(k, v) \<in> set a" using kv by (rule map_of_SomeD)
    moreover have "well_formed v" using YDict.prems(1) kv by (rule well_formed_lookup)
    moreover have "well_formed w" using wb kw by (rule well_formed_lookup)
    ultimately have "same_mapping w v" using YDict.IH[of "(k, v)" v w] vw by simp
    with kv show "\<exists>v. map_of a k = Some v \<and> same_mapping w v" by blast
  qed
  with y show ?case by simp
next
  case YNone
  then show ?case by (cases y) simp_all
next
  case (YBool b)
  then show ?case by (cases y) simp_all
next
  case (YInt i)
  then show ?case by (cases y) simp_all
next
  case (YFloat f)
  then show ?case by (cases y) simp_all
next
  case (YStr s)
  then show ?case by (cases y) simp_all
qed

lemma same_mapping_trans:
  "well_formed x \<Longrightarrow> same_mapping x y \<Longrightarrow> same_mapping y z \<Longrightarrow> same_mapping x z"
proof (induction x arbitrary: y z)
  case (YList xs)
  from YList.prems(2) obtain ys where y: "y = YList ys" by (cases y) simp_all
  from YList.prems(3) y obtain zs where z: "z = YList zs" by (cases z) simp_all
  from YList.prems y z have l: "list_all2 same_mapping xs ys" "list_all2 same_mapping ys zs"
    by simp_all
  have "list_all2 same_mapping xs zs"
  proof (rule list_all2_all_nthI)
    show "length xs = length zs" using l by (simp add: list_all2_lengthD)
  next
    fix n assume n: "n < length xs"
    then have ny: "n < length ys" using l by (simp add: list_all2_lengthD)
    have "same_mapping (xs ! n) (ys ! n)" using l(1) n by (simp add: list_all2_nthD)
    moreover have "same_mapping (ys ! n) (zs ! n)" using l(2) ny by (simp add: list_all2_nthD)
    moreover have "well_formed (xs ! n)" using YList.prems(1) n by simp
    moreover have "xs ! n \<in> set xs" using n by simp
    ultimately show "same_mapping (xs ! n) (zs ! n)" using YList.IH by blast
  qed
  with z show ?case by simp
next
  case (YDict a)
  from YDict.prems(2) obtain b where y: "y = YDict b"
    by (blast dest: same_mapping_dict_right)
  from YDict.prems(3) y obtain c where z: "z = YDict c"
    by (blast dest: same_mapping_dict_right)
  have ab: "same_mapping (YDict a) (YDict b)" using YDict.prems(2) y by simp
  have bc: "same_mapping (YDict b) (YDict c)" using YDict.prems(3) y z by simp
  have "same_mapping (YDict a) (YDict c)"
  proof (rule same_mapping_dictI)
    show "distinct (map fst a)" using YDict.prems(1) by simp
    show "fst ` set a = fst ` set c" using ab bc by simp
  next
    fix k v assume kv: "map_of a k = Some v"
    with ab obtain w where kw: "map_of b k = Some w" and vw: "same_mapping v w"
      by (blast dest: same_mapping_dictD)
    with bc obtain u where ku: "map_of c k = Some u" and wu: "same_mapping w u"
      by (blast dest: same_mapping_dictD)
    have "(k, v) \<in> set a" using kv by (rule map_of_SomeD)
    moreover have "well_formed v" using YDict.prems(1) kv by (rule well_formed_lookup)
    ultimately have "same_mapping v u" using YDict.IH[of "(k, v)" v w u] vw wu by simp
    with ku show "\<exists>u. map_of c k = Some u \<and> same_mapping v u" by blast
  qed
  with z show ?case by simp
qed simp_all

lemma same_mapping_inner:
  assumes "well_formed (YDict a)" "map_of a k = Some v" "same_mapping v v'"
  shows "same_mapping (YDict a) (YDict (dict_set a k v'))"
proof (rule same_mapping_dictI)
  show "distinct (map fst a)" using assms(1) by simp
  have "k \<in> fst ` set a" using assms(2) by (metis map_of_eq_None_iff option.distinct(1))
  then show "fst ` set a = fst ` set (dict_set a k v')" by (auto simp: keys_dict_set)
next
  fix k' w assume kw: "map_of a k' = Some w"
  show "\<exists>w'. map_of (dict_set a k v') k' = Some w' \<and> same_mapping w w'"
  proof (cases "k' = k")
    case True
    with kw assms(2,3) show ?thesis by (simp add: map_of_dict_set)
  next
    case False
    moreover have "same_mapping w w"
      using assms(1) kw by (blast intro: same_mapping_refl well_formed_lookup)
    ultimately show ?thesis using kw by (simp add: map_of_dict_set)
  qed
qed

lemma same_mapping_merged:
  assumes "well_formed (YDict d)" "well_formed (YDict s)" "well_formed (YDict s')"
    and "same_mapping (YDict s) (YDict s')"
  shows "same_mapping (YDict (merged d s)) (YDict (merged d s'))"
  using assms
proof (induction "items_size s" arbitrary: d s s' rule: less_induct)
  case less
  have ds: "distinct (map fst s)" and ds': "distinct (map fst s')"
    using less.prems(2,3) by simp_all
  have keys: "fst ` set s = fst ` set s'"
    using less.prems(4) by (rule same_mapping_keys)
  show ?case
  proof (rule same_mapping_dictI)
    show "distinct (map fst (merged d s))"
      using less.prems(1) by (simp add: distinct_merged)
    show "fst ` set (merged d s) = fst ` set (merged d s')"
      by (simp add: keys_merged keys)
  next
    fix k v assume kv: "map_of (merged d s) k = Some v"
    show "\<exists>w. map_of (merged d s') k = Some w \<and> same_mapping v w"
    proof (cases "map_of s k")
      case None
      then have "k \<notin> fst ` set s'" using keys by (simp add: map_of_eq_None_iff)
      then have "map_of s' k = None" by (simp add: map_of_eq_None_iff)
      with None kv have "map_of d k = Some v" "map_of (merged d s') k = Some v"
        by (simp_all add: map_of_merged[OF ds] map_of_merged[OF ds'])
      moreover from this(1) less.prems(1) have "same_mapping v v"
        by (blast intro: same_mapping_refl well_formed_lookup)
      ultimately show ?thesis by blast
    next
      case (Some x)
      with less.prems(4) obtain x' where x': "map_of s' k = Some x'" and xx': "same_mapping x x'"
        by (blast dest: same_mapping_dictD)
      from kv Some have v: "v = merge_value (map_of d k) x"
        by (simp add: map_of_merged[OF ds])
      from x' have r': "map_of (merged d s') k = Some (merge_value (map_of d k) x')"
        by (simp add: map_of_merged[OF ds'])
      have "same_mapping (merge_value (map_of d k) x) (merge_value (map_of d k) x')"
      proof (cases "\<exists>sd sv. map_of d k = Some (YDict sd) \<and> x = YDict sv")
        case True
        then obtain sd sv where sd: "map_of d k = Some (YDict sd)" and sv: "x = YDict sv"
          by blast
        from xx' sv obtain sv' where sv': "x' = YDict sv'"
          by (blast dest: same_mapping_dict_right)
        have "well_formed (YDict sd)" using less.prems(1) sd by (rule well_formed_lookup)
        moreover have "well_formed (YDict sv)"
          using less.prems(2) Some unfolding sv by (rule well_formed_lookup)
        moreover have "well_formed (YDict sv')"
          using less.prems(3) x' unfolding sv' by (rule well_formed_lookup)
        moreover have "items_size sv < items_size s"
          using Some sv by (simp add: map_of_size_less)
        moreover have "same_mapping (YDict sv) (YDict sv')" using xx' sv sv' by simp
        ultimately have "same_mapping (YDict (merged sd sv)) (YDict (merged sd sv'))"
          using less.hyps by blast
        then show ?thesis by (simp add: merge_value_def sd sv sv')
      next
        case False
        then have "merge_value (map_of d k) x = x"
          unfolding merge_value_def by (auto split: option.splits yaml.splits)
        moreover have "merge_value (map_of d k) x' = x'"
        proof (cases "\<exists>sv'. x' = YDict sv'")
          case True
          with xx' obtain sv where "x = YDict sv" by (blast dest: same_mapping_dict_left)
          with False have "\<nexists>sd. map_of d k = Some (YDict sd)" by blast
          then show ?thesis unfolding merge_value_def by (auto split: option.splits yaml.splits)
        next
          case False
          then show ?thesis unfolding merge_value_def by (auto split: option.splits yaml.splits)
        qed
        ultimately show ?thesis using xx' by simp
      qed
      with v r' show ?thesis by blast
    qed
  qed
qed

lemma permuted_same_mapping:
  assumes "well_formed (YDict a)" "mset b = mset a"
  shows "same_mapping (YDict a) (YDict b)"
proof (rule same_mapping_dictI)
  from assms(2) have set: "set b = set a" by (rule mset_eq_setD)
  have da: "distinct (map fst a)" using assms(1) by simp
  from assms(2) have "mset (map fst b) = mset (map fst a)" by simp
  then have db: "distinct (map fst b)" using da by (metis mset_eq_imp_distinct_iff)
  show "distinct (map fst a)" by (rule da)
  show "fst ` set a = fst ` set b" using set by simp
  fix k v assume kv: "map_of a k = Some v"
  then have "(k, v) \<in> set b" using set by (auto dest: map_of_SomeD)
  then have "map_of b k = Some v" using db by simp
  moreover have "same_mapping v v"
    using assms(1) kv by (blast intro: same_mapping_refl well_formed_lookup)
  ultimately show "\<exists>w. map_of b k = Some w \<and> same_mapping v w" by blast
qed



section \<open>Properties of \<^verbatim>\<open>_deep_merge\<close>\<close>

subsection \<open>Documents without shared objects\<close>

lemma sep_list_weaken:
  "sep_list P xs ys A \<Longrightarrow> (\<And>x y C. C \<subseteq> A \<Longrightarrow> P x y C \<Longrightarrow> Q x y C) \<Longrightarrow> sep_list Q xs ys A"
proof (induction rule: sep_list.induct)
  case sep_Nil
  show ?case by (rule sep_list.sep_Nil)
next
  case (sep_Cons x y A xs ys B)
  have "Q x y A" using sep_Cons.prems[of A x y] sep_Cons.hyps(1) by simp
  moreover have "sep_list Q xs ys B"
    by (rule sep_Cons.IH) (use sep_Cons.prems in blast)
  ultimately show ?case using sep_Cons.hyps(3) by (rule sep_list.sep_Cons)
qed

lemma sep_list_footprint: "sep_list P xs ys A \<Longrightarrow> A = A' \<Longrightarrow> sep_list P xs ys A'"
  by simp

lemma sep_list_member: "sep_list P xs ys A \<Longrightarrow> y \<in> set ys \<Longrightarrow> \<exists>x C. P x y C"
  by (induction rule: sep_list.induct) auto

text \<open>A document depends on the objects at its addresses only.\<close>

lemma repr_frame: "repr h v t A \<Longrightarrow> (\<And>x. x \<in> A \<Longrightarrow> h' x = h x) \<Longrightarrow> repr h' v t A"
proof (induction rule: repr.induct)
  case (repr_List vs ts A)
  have "sep_list (repr h') vs ts A"
    by (rule sep_list_weaken[OF repr_List.IH]) (use repr_List.prems in blast)
  then show ?case by (rule repr.repr_List)
next
  case (repr_Dict a kvs its A)
  have "h' a = Some kvs" using repr_Dict.prems[of a] repr_Dict.hyps(1) by simp
  moreover note repr_Dict.hyps(2)
  moreover have "repr_items h' kvs its A"
    by (rule sep_list_weaken[OF repr_Dict.IH]) (use repr_Dict.prems in blast)
  ultimately show ?case using repr_Dict.hyps(3) by (rule repr.repr_Dict)
qed (auto intro: repr.intros)

lemma repr_items_frame:
  assumes "repr_items h kvs its A" "\<And>x. x \<in> A \<Longrightarrow> h' x = h x"
  shows "repr_items h' kvs its A"
proof (rule sep_list_weaken[OF assms(1)])
  fix kv it C assume "C \<subseteq> A" "fst kv = fst it \<and> repr h (snd kv) (snd it) C"
  then show "fst kv = fst it \<and> repr h' (snd kv) (snd it) C"
    using assms(2) by (auto intro: repr_frame)
qed

lemma sep_list_map:
  "sep_list P xs ys A \<Longrightarrow> (\<And>x y C. P x y C \<Longrightarrow> f x = g y) \<Longrightarrow> map f xs = map g ys"
  by (induction rule: sep_list.induct) auto

lemma repr_items_keys: "repr_items h kvs its A \<Longrightarrow> map fst kvs = map fst its"
  by (erule sep_list_map) simp

lemma repr_is_dict: "repr h v t A \<Longrightarrow> is_dict v = isdict t"
  by (cases rule: repr.cases) auto

lemma repr_well_formed: "repr h v t A \<Longrightarrow> well_formed t"
proof (induction rule: repr.induct)
  case (repr_List vs ts A)
  have "well_formed x" if "x \<in> set ts" for x
    using sep_list_member[OF repr_List.IH that] by blast
  then show ?case by simp
next
  case (repr_Dict a kvs its A)
  have "map fst kvs = map fst its"
    by (rule sep_list_map[OF repr_Dict.IH]) simp
  then have "distinct (map fst its)" using repr_Dict.hyps(2) by simp
  moreover have "well_formed (snd it)" if "it \<in> set its" for it
    using sep_list_member[OF repr_Dict.IH that] by blast
  ultimately show ?case by simp
qed simp_all

lemma dict_set_same: "map_of kvs k = Some w \<Longrightarrow> dict_set kvs k w = kvs"
  by (induction kvs k w rule: dict_set.induct) (auto split: if_splits)

text \<open>
  The value at a key of a mapping without shared objects stands on addresses \<open>Cw\<close> of its
  own; a value that stands apart from the addresses \<open>Arest\<close> of the other items can take
  its place.
\<close>

lemma repr_items_lookup:
  assumes "repr_items h kvs its A" "map_of kvs k = Some w"
  shows "\<exists>tw Cw Arest. map_of its k = Some tw \<and> repr h w tw Cw \<and> A = Cw \<union> Arest \<and> Cw \<inter> Arest = {} \<and>
     (\<forall>h' w' tw' Cw'. (\<forall>x\<in>Arest. h' x = h x) \<longrightarrow> repr h' w' tw' Cw' \<longrightarrow> Cw' \<inter> Arest = {} \<longrightarrow>
         repr_items h' (dict_set kvs k w') (dict_set its k tw') (Cw' \<union> Arest))"
  using assms
proof (induction rule: sep_list.induct)
  case sep_Nil
  then show ?case by simp
next
  case (sep_Cons kv it A0 kvs its B)
  obtain k0 v0 where kv: "kv = (k0, v0)" by (cases kv)
  obtain k1 t0 where it: "it = (k1, t0)" by (cases it)
  from sep_Cons.hyps(1) kv it have k1: "k1 = k0" and r0: "repr h v0 t0 A0" by simp_all
  show ?case
  proof (cases "k0 = k")
    case True
    with sep_Cons.prems kv have w: "w = v0" by simp
    have "repr_items h' (dict_set (kv # kvs) k w') (dict_set (it # its) k tw') (Cw' \<union> B)"
      if "\<forall>x\<in>B. h' x = h x" "repr h' w' tw' Cw'" "Cw' \<inter> B = {}" for h' w' tw' Cw'
    proof -
      have "repr_items h' kvs its B"
        by (rule repr_items_frame[OF sep_Cons.hyps(2)]) (use that(1) in simp)
      then have "repr_items h' ((k, w') # kvs) ((k, tw') # its) (Cw' \<union> B)"
        using that(2,3) by (intro sep_list.sep_Cons) simp_all
      then show ?thesis using True kv it k1 by simp
    qed
    with True w r0 sep_Cons.hyps(3) it k1 show ?thesis
      by (intro exI[of _ t0] exI[of _ A0] exI[of _ B]) simp
  next
    case False
    with sep_Cons.prems kv have "map_of kvs k = Some w" by simp
    from sep_Cons.IH[OF this] obtain tw Cw Arest where
      tw: "map_of its k = Some tw" and rw: "repr h w tw Cw" and B: "B = Cw \<union> Arest"
      and dj: "Cw \<inter> Arest = {}"
      and rep: "\<And>h' w' tw' Cw'. (\<forall>x\<in>Arest. h' x = h x) \<Longrightarrow> repr h' w' tw' Cw' \<Longrightarrow>
         Cw' \<inter> Arest = {} \<Longrightarrow>
         repr_items h' (dict_set kvs k w') (dict_set its k tw') (Cw' \<union> Arest)"
      by blast
    have "repr_items h' (dict_set (kv # kvs) k w') (dict_set (it # its) k tw') (Cw' \<union> (A0 \<union> Arest))"
      if a: "\<forall>x\<in>A0 \<union> Arest. h' x = h x" and b: "repr h' w' tw' Cw'"
        and c: "Cw' \<inter> (A0 \<union> Arest) = {}"
      for h' w' tw' Cw'
    proof -
      have "repr_items h' (dict_set kvs k w') (dict_set its k tw') (Cw' \<union> Arest)"
        by (rule rep) (use a b c in auto)
      moreover have "repr h' v0 t0 A0" by (rule repr_frame[OF r0]) (use a in simp)
      moreover have "A0 \<inter> (Cw' \<union> Arest) = {}" using c sep_Cons.hyps(3) B by auto
      ultimately have "repr_items h' ((k0, v0) # dict_set kvs k w') ((k0, t0) # dict_set its k tw')
          (A0 \<union> (Cw' \<union> Arest))"
        by (intro sep_list.sep_Cons) simp_all
      then have "repr_items h' ((k0, v0) # dict_set kvs k w') ((k0, t0) # dict_set its k tw')
          (Cw' \<union> (A0 \<union> Arest))"
        by (rule sep_list_footprint) auto
      then show ?thesis using False kv it k1 by simp
    qed
    moreover have "A0 \<union> B = Cw \<union> (A0 \<union> Arest)" using B by auto
    moreover have "Cw \<inter> (A0 \<union> Arest) = {}" using dj B sep_Cons.hyps(3) by auto
    moreover have "map_of (it # its) k = Some tw" using tw False it k1 by simp
    ultimately show ?thesis using rw
      by (intro exI[of _ tw] exI[of _ Cw] exI[of _ "A0 \<union> Arest"]) simp
  qed
qed

lemma repr_items_new:
  assumes "repr_items h kvs its A" "map_of kvs k = None" "\<And>x. x \<in> A \<Longrightarrow> h' x = h x"
    "repr h' w' tw' Cw'" "Cw' \<inter> A = {}"
  shows "repr_items h' (dict_set kvs k w') (dict_set its k tw') (A \<union> Cw')"
  using assms
proof (induction rule: sep_list.induct)
  case sep_Nil
  have "repr_items h' [(k, w')] [(k, tw')] (Cw' \<union> {})"
    using sep_Nil.prems(3) by (intro sep_list.sep_Cons sep_list.sep_Nil) simp_all
  then show ?case by simp
next
  case (sep_Cons kv it A0 kvs its B)
  obtain k0 v0 where kv: "kv = (k0, v0)" by (cases kv)
  obtain k1 t0 where it: "it = (k1, t0)" by (cases it)
  from sep_Cons.hyps(1) kv it have k1: "k1 = k0" and r0: "repr h v0 t0 A0" by simp_all
  from sep_Cons.prems(1) kv have ne: "k0 \<noteq> k" and tl: "map_of kvs k = None"
    by (auto split: if_splits)
  have "repr_items h' (dict_set kvs k w') (dict_set its k tw') (B \<union> Cw')"
    by (rule sep_Cons.IH[OF tl]) (use sep_Cons.prems in auto)
  moreover have "repr h' v0 t0 A0" by (rule repr_frame[OF r0]) (use sep_Cons.prems(2) in simp)
  moreover have "A0 \<inter> (B \<union> Cw') = {}" using sep_Cons.hyps(3) sep_Cons.prems(4) by auto
  ultimately have "repr_items h' ((k0, v0) # dict_set kvs k w') ((k0, t0) # dict_set its k tw')
      (A0 \<union> (B \<union> Cw'))"
    by (intro sep_list.sep_Cons) simp_all
  then have "repr_items h' ((k0, v0) # dict_set kvs k w') ((k0, t0) # dict_set its k tw')
      (A0 \<union> B \<union> Cw')"
    by (rule sep_list_footprint) auto
  then show ?case using ne kv it k1 by simp
qed

lemma repr_items_value:
  assumes "repr_items h kvs its A" "map_of its k = Some t"
  shows "\<exists>v C. map_of kvs k = Some v \<and> repr h v t C \<and> C \<subseteq> A"
  using assms
proof (induction rule: sep_list.induct)
  case sep_Nil
  then show ?case by simp
next
  case (sep_Cons kv it A0 kvs its B)
  show ?case
  proof (cases "fst it = k")
    case True
    with sep_Cons.prems have "snd it = t" by (cases it) simp
    with True sep_Cons.hyps(1) show ?thesis
      by (intro exI[of _ "snd kv"] exI[of _ A0]) (cases kv, auto)
  next
    case False
    with sep_Cons.prems have "map_of its k = Some t" by (cases it) simp
    from sep_Cons.IH[OF this] obtain v C where
      "map_of kvs k = Some v" "repr h v t C" "C \<subseteq> B" by blast
    with False sep_Cons.hyps(1) show ?thesis
      by (intro exI[of _ v] exI[of _ C]) (cases kv, auto)
  qed
qed

subsection \<open>One turn of the loop\<close>

lemma merge_loop_unfold:
  assumes "h d = Some dkvs" "h s = Some skvs" "i < length skvs" "skvs ! i = (k, v)"
  shows "merge_loop n h (VDict d) s (length skvs) i =
     (case map_of dkvs k of
        Some w \<Rightarrow>
          if is_dict w \<and> is_dict v then
            (case deep_merge n h w v of
               None \<Rightarrow> None
             | Some (h', Some e) \<Rightarrow> Some (h', Some e)
             | Some (h', None) \<Rightarrow> merge_loop n h' (VDict d) s (length skvs) (Suc i))
          else merge_loop n (h(d \<mapsto> dict_set dkvs k v)) (VDict d) s (length skvs) (Suc i)
      | None \<Rightarrow> merge_loop n (h(d \<mapsto> dict_set dkvs k v)) (VDict d) s (length skvs) (Suc i))"
proof (cases "map_of dkvs k")
  case None
  then have "k \<notin> fst ` set dkvs" by (simp add: map_of_eq_None_iff)
  with None assms show ?thesis
    by (subst merge_loop.simps) (simp add: dict_at_def)
next
  case (Some w)
  then have "k \<in> fst ` set dkvs" by (metis map_of_eq_None_iff option.distinct(1))
  with Some assms show ?thesis
    by (subst merge_loop.simps) (simp add: dict_at_def)
qed

lemma merge_loop_done:
  assumes "h s = Some skvs"
  shows "merge_loop n h dest s (length skvs) (length skvs) = Some (h, None)"
  using assms by (subst merge_loop.simps) (simp add: dict_at_def)

lemma merge_value_other: "\<not> (isdict tw \<and> isdict t) \<Longrightarrow> merge_value (Some tw) t = t"
  unfolding merge_value_def by (cases tw; cases t) simp_all

text \<open>
  One turn of the loop on a destination \<open>d\<close> without shared objects and an item \<open>(k, v)\<close>
  of the source that stands apart from it: the turn goes on to the next position, and
  the destination then stands for the mapping with \<open>merge_value\<close> at \<open>k\<close>. \<open>deep\<close> is the
  statement for the recursive call.
\<close>

lemma merge_loop_turn:
  assumes deep: "\<And>a b Da Sb Aa Bb. repr h (VDict a) (YDict Da) Aa \<Longrightarrow>
             repr h (VDict b) (YDict Sb) Bb \<Longrightarrow> Aa \<inter> Bb = {} \<Longrightarrow> size (YDict Sb) \<le> n \<Longrightarrow>
             \<exists>h' A'. deep_merge n h (VDict a) (VDict b) = Some (h', None) \<and>
               repr h' (VDict a) (YDict (merged Da Sb)) A' \<and> A' \<subseteq> Aa \<union> Bb \<and>
               (\<forall>x. x \<notin> Aa \<union> Bb \<longrightarrow> h' x = h x)"
    and d: "h d = Some dkvs" and dd: "distinct (map fst dkvs)"
    and D: "repr_items h dkvs D AD" and dAD: "d \<notin> AD"
    and s: "h s = Some skvs" and i: "i < length skvs" and kv: "skvs ! i = (k, v)"
    and v: "repr h v t C" and dj: "insert d AD \<inter> C = {}" and size: "size t \<le> n"
  shows "\<exists>h1 dkvs1 AD1.
           merge_loop n h (VDict d) s (length skvs) i
             = merge_loop n h1 (VDict d) s (length skvs) (Suc i) \<and>
           h1 d = Some dkvs1 \<and> distinct (map fst dkvs1) \<and>
           repr_items h1 dkvs1 (dict_set D k (merge_value (map_of D k) t)) AD1 \<and>
           d \<notin> AD1 \<and> AD1 \<subseteq> AD \<union> C \<and> (\<forall>x. x \<notin> insert d AD \<union> C \<longrightarrow> h1 x = h x)"
proof -
  note unfold = merge_loop_unfold[OF d s i kv, of n]
  let ?h1 = "h(d \<mapsto> dict_set dkvs k v)"
  have dC: "d \<notin> C" using dj by auto
  have v1: "repr ?h1 v t C" by (rule repr_frame[OF v]) (use dC in auto)
  have dd1: "distinct (map fst (dict_set dkvs k v))" using dd by (rule distinct_dict_set)
  show ?thesis
  proof (cases "map_of dkvs k")
    case None
    have keys: "map fst dkvs = map fst D" using D by (rule repr_items_keys)
    have "k \<notin> fst ` set dkvs" using None by (simp add: map_of_eq_None_iff)
    then have "k \<notin> set (map fst D)" using keys by (metis set_map)
    then have DN: "map_of D k = None" by (simp add: map_of_eq_None_iff)
    have "repr_items ?h1 (dict_set dkvs k v) (dict_set D k t) (AD \<union> C)"
      by (rule repr_items_new[OF D None _ v1]) (use dAD dj in auto)
    then have 1: "repr_items ?h1 (dict_set dkvs k v)
        (dict_set D k (merge_value (map_of D k) t)) (AD \<union> C)"
      by (simp add: DN merge_value_def)
    have 2: "merge_loop n h (VDict d) s (length skvs) i
        = merge_loop n ?h1 (VDict d) s (length skvs) (Suc i)"
      using unfold None by simp
    have 3: "?h1 d = Some (dict_set dkvs k v)" by simp
    have 4: "d \<notin> AD \<union> C" using dAD dC by simp
    have 5: "\<forall>x. x \<notin> insert d AD \<union> C \<longrightarrow> ?h1 x = h x" by simp
    from 1 2 3 4 5 dd1 show ?thesis by blast
  next
    case (Some w)
    from repr_items_lookup[OF D Some] obtain tw Cw Arest where
      tw: "map_of D k = Some tw" and rw: "repr h w tw Cw" and AD: "AD = Cw \<union> Arest"
      and cdj: "Cw \<inter> Arest = {}"
      and rep: "\<And>h' w' tw' Cw'. (\<forall>x\<in>Arest. h' x = h x) \<Longrightarrow> repr h' w' tw' Cw' \<Longrightarrow>
         Cw' \<inter> Arest = {} \<Longrightarrow>
         repr_items h' (dict_set dkvs k w') (dict_set D k tw') (Cw' \<union> Arest)"
      by blast
    show ?thesis
    proof (cases "is_dict w \<and> is_dict v")
      case True
      then obtain a b where w: "w = VDict a" and vb: "v = VDict b"
        by (cases w; cases v) simp_all
      from rw w obtain Da where twD: "tw = YDict Da" by (auto elim: repr_DictE)
      from v vb obtain Sb where tS: "t = YDict Sb" by (auto elim: repr_DictE)
      have "Cw \<inter> C = {}" using dj AD by auto
      from deep[OF rw[unfolded w twD] v[unfolded vb tS] this size[unfolded tS]]
      obtain h' A' where
        run: "deep_merge n h (VDict a) (VDict b) = Some (h', None)"
        and r': "repr h' (VDict a) (YDict (merged Da Sb)) A'"
        and sub: "A' \<subseteq> Cw \<union> C"
        and frame: "\<And>x. x \<notin> Cw \<union> C \<Longrightarrow> h' x = h x"
        by blast
      have "repr_items h' (dict_set dkvs k w) (dict_set D k (YDict (merged Da Sb))) (A' \<union> Arest)"
        unfolding w
      proof (rule rep[OF _ r'])
        show "\<forall>x\<in>Arest. h' x = h x" using frame cdj dj AD by auto
        show "A' \<inter> Arest = {}" using sub cdj dj AD by auto
      qed
      then have 1: "repr_items h' dkvs (dict_set D k (merge_value (map_of D k) t)) (A' \<union> Arest)"
        by (simp add: dict_set_same[OF Some] tw twD tS merge_value_def)
      have 2: "h' d = Some dkvs" using frame[of d] d dAD dC AD by auto
      have 3: "d \<notin> A' \<union> Arest" using sub dAD dC AD by auto
      have 4: "A' \<union> Arest \<subseteq> AD \<union> C" using sub AD by auto
      have 5: "\<forall>x. x \<notin> insert d AD \<union> C \<longrightarrow> h' x = h x" using frame AD by auto
      have 6: "merge_loop n h (VDict d) s (length skvs) i
          = merge_loop n h' (VDict d) s (length skvs) (Suc i)"
        using unfold Some True run w vb by simp
      from 1 2 3 4 5 6 dd show ?thesis by blast
    next
      case False
      then have "\<not> (isdict tw \<and> isdict t)"
        using repr_is_dict[OF rw] repr_is_dict[OF v] by simp
      then have mv: "merge_value (map_of D k) t = t" by (simp add: tw merge_value_other)
      have "repr_items ?h1 (dict_set dkvs k v) (dict_set D k t) (C \<union> Arest)"
      proof (rule rep[OF _ v1])
        show "\<forall>x\<in>Arest. ?h1 x = h x" using dAD AD by auto
        show "C \<inter> Arest = {}" using dj AD by auto
      qed
      then have 1: "repr_items ?h1 (dict_set dkvs k v)
          (dict_set D k (merge_value (map_of D k) t)) (C \<union> Arest)"
        by (simp add: mv)
      have 2: "merge_loop n h (VDict d) s (length skvs) i
          = merge_loop n ?h1 (VDict d) s (length skvs) (Suc i)"
        using unfold Some False by auto
      have 3: "?h1 d = Some (dict_set dkvs k v)" by simp
      have 4: "d \<notin> C \<union> Arest" using dAD dC AD by auto
      have 5: "C \<union> Arest \<subseteq> AD \<union> C" using AD by auto
      have 6: "\<forall>x. x \<notin> insert d AD \<union> C \<longrightarrow> ?h1 x = h x" by simp
      from 1 2 3 4 5 6 dd1 show ?thesis by blast
    qed
  qed
qed

subsection \<open>The loop and the call\<close>

text \<open>
  The loop from position \<open>i\<close> on, over the items \<open>R\<close> of the source that are left, on a
  destination that stands apart from them: it ends without an exception, and the
  destination then stands for \<open>merged D R\<close>. Only objects of the two documents change.
\<close>

lemma merge_loop_refines:
  assumes deep: "\<And>(h :: 'f heap) a b Da Sb Aa Bb. repr h (VDict a) (YDict Da) Aa \<Longrightarrow>
             repr h (VDict b) (YDict Sb) Bb \<Longrightarrow> Aa \<inter> Bb = {} \<Longrightarrow> size (YDict Sb) \<le> n \<Longrightarrow>
             \<exists>h' A'. deep_merge n h (VDict a) (VDict b) = Some (h', None) \<and>
               repr h' (VDict a) (YDict (merged Da Sb)) A' \<and> A' \<subseteq> Aa \<union> Bb \<and>
               (\<forall>x. x \<notin> Aa \<union> Bb \<longrightarrow> h' x = h x)"
  shows "(h :: 'f heap) d = Some dkvs \<Longrightarrow> distinct (map fst dkvs) \<Longrightarrow>
         repr_items h dkvs D AD \<Longrightarrow> d \<notin> AD \<Longrightarrow> h s = Some skvs \<Longrightarrow>
         i \<le> length skvs \<Longrightarrow> repr_items h (drop i skvs) R B \<Longrightarrow> insert d AD \<inter> B = {} \<Longrightarrow>
         s \<notin> insert d AD \<union> B \<Longrightarrow> items_size R \<le> n \<Longrightarrow>
         \<exists>h' dkvs' AD'. merge_loop n h (VDict d) s (length skvs) i = Some (h', None) \<and>
           h' d = Some dkvs' \<and> distinct (map fst dkvs') \<and>
           repr_items h' dkvs' (merged D R) AD' \<and> d \<notin> AD' \<and>
           AD' \<subseteq> AD \<union> B \<and> (\<forall>x. x \<notin> insert d AD \<union> B \<longrightarrow> h' x = h x)"
proof (induction R arbitrary: h dkvs D AD i B)
  case Nil
  from Nil.prems(7) have "drop i skvs = []" by (auto elim: sep_list_NilE)
  with Nil.prems(6) have "i = length skvs" by simp
  then have "merge_loop n h (VDict d) s (length skvs) i = Some (h, None)"
    using merge_loop_done[of h s skvs n "VDict d"] Nil.prems(5) by simp
  moreover have "repr_items h dkvs (merged D []) AD" using Nil.prems(3) by simp
  moreover have "AD \<subseteq> AD \<union> B" by simp
  ultimately show ?case using Nil.prems(1,2,4) by blast
next
  case (Cons kt R)
  obtain k t where kt: "kt = (k, t)" by (cases kt)
  from Cons.prems(7) obtain kv rest C B' where
    dr: "drop i skvs = kv # rest" and key: "fst kv = k" and v: "repr h (snd kv) t C"
    and rest: "repr_items h rest R B'" and cdj: "C \<inter> B' = {}" and B: "B = C \<union> B'"
    unfolding kt by (auto elim: sep_list_ConsE)
  have i: "i < length skvs" using dr by (cases "i < length skvs") simp_all
  from dr i have "skvs ! i # drop (Suc i) skvs = kv # rest"
    by (simp add: Cons_nth_drop_Suc)
  then have kv: "skvs ! i = (k, snd kv)" and rest': "rest = drop (Suc i) skvs"
    using key by (simp_all add: prod_eq_iff)
  have size: "size t \<le> n" and sizeR: "items_size R \<le> n"
    using Cons.prems(10) unfolding kt by simp_all
  have dj: "insert d AD \<inter> C = {}" using Cons.prems(8) B by auto
  from merge_loop_turn[OF deep Cons.prems(1,2,3,4,5) i kv v dj size]
  obtain h1 dkvs1 AD1 where
    step: "merge_loop n h (VDict d) s (length skvs) i
      = merge_loop n h1 (VDict d) s (length skvs) (Suc i)"
    and d1: "h1 d = Some dkvs1" and dd1: "distinct (map fst dkvs1)"
    and D1: "repr_items h1 dkvs1 (dict_set D k (merge_value (map_of D k) t)) AD1"
    and dAD1: "d \<notin> AD1" and sub1: "AD1 \<subseteq> AD \<union> C"
    and frame1: "\<And>x. x \<notin> insert d AD \<union> C \<Longrightarrow> h1 x = h x"
    by blast
  have s1: "h1 s = Some skvs" using frame1[of s] Cons.prems(5,9) B by auto
  have rest1: "repr_items h1 (drop (Suc i) skvs) R B'"
    unfolding rest'[symmetric]
  proof (rule repr_items_frame[OF rest])
    fix x assume "x \<in> B'"
    then have "x \<notin> insert d AD \<union> C" using cdj Cons.prems(8) B by auto
    then show "h1 x = h x" by (rule frame1)
  qed
  have dj1: "insert d AD1 \<inter> B' = {}" using sub1 cdj Cons.prems(8) B by auto
  have sn1: "s \<notin> insert d AD1 \<union> B'" using sub1 Cons.prems(9) B by auto
  have i1: "Suc i \<le> length skvs" using i by simp
  from Cons.IH[OF d1 dd1 D1 dAD1 s1 i1 rest1 dj1 sn1 sizeR]
  obtain h' dkvs' AD' where
    run: "merge_loop n h1 (VDict d) s (length skvs) (Suc i) = Some (h', None)"
    and d': "h' d = Some dkvs'" and dd': "distinct (map fst dkvs')"
    and D': "repr_items h' dkvs' (merged (dict_set D k (merge_value (map_of D k) t)) R) AD'"
    and dAD': "d \<notin> AD'" and sub': "AD' \<subseteq> AD1 \<union> B'"
    and frame': "\<And>x. x \<notin> insert d AD1 \<union> B' \<Longrightarrow> h' x = h1 x"
    by blast
  have 1: "merge_loop n h (VDict d) s (length skvs) i = Some (h', None)" using step run by simp
  have 2: "repr_items h' dkvs' (merged D (kt # R)) AD'"
    unfolding kt merged_Cons by (rule D')
  have 3: "\<forall>x. x \<notin> insert d AD \<union> B \<longrightarrow> h' x = h x"
  proof (intro allI impI)
    fix x assume "x \<notin> insert d AD \<union> B"
    then have "x \<notin> insert d AD1 \<union> B'" "x \<notin> insert d AD \<union> C" using sub1 B by auto
    then show "h' x = h x" using frame' frame1 by simp
  qed
  have 4: "AD' \<subseteq> AD \<union> B" using sub' sub1 B by auto
  from 1 2 3 4 d' dd' dAD' show ?case by blast
qed

text \<open>
  The call on two mappings without shared objects that stand apart from each other, with
  a bound on the nesting that is at least the size of the source: it returns without an
  exception, and the destination then stands for the mapping \<open>merged D S\<close>, again without
  shared objects. Only objects of the two documents change.
\<close>

lemma deep_merge_refines:
  "repr h (VDict d) (YDict D) A \<Longrightarrow> repr h (VDict s) (YDict S) B \<Longrightarrow> A \<inter> B = {} \<Longrightarrow>
   size (YDict S) \<le> n \<Longrightarrow>
   \<exists>h' A'. deep_merge n h (VDict d) (VDict s) = Some (h', None) \<and>
     repr h' (VDict d) (YDict (merged D S)) A' \<and> A' \<subseteq> A \<union> B \<and>
     (\<forall>x. x \<notin> A \<union> B \<longrightarrow> h' x = h x)"
proof (induction n arbitrary: h d s D S A B)
  case 0
  then show ?case by simp
next
  case (Suc n)
  from Suc.prems(1) obtain dkvs AD where
    d: "h d = Some dkvs" and dd: "distinct (map fst dkvs)"
    and D: "repr_items h dkvs D AD" and dAD: "d \<notin> AD" and A: "A = insert d AD"
    by (auto elim: repr_DictE)
  from Suc.prems(2) obtain skvs BS where
    s: "h s = Some skvs" and S: "repr_items h skvs S BS" and sBS: "s \<notin> BS"
    and B: "B = insert s BS"
    by (auto elim: repr_DictE)
  have dj: "insert d AD \<inter> BS = {}" using Suc.prems(3) A B by auto
  have sn: "s \<notin> insert d AD \<union> BS" using Suc.prems(3) A B sBS by auto
  have size: "items_size S \<le> n" using Suc.prems(4) by simp
  have S0: "repr_items h (drop 0 skvs) S BS" using S by simp
  have z: "0 \<le> length skvs" by simp
  from merge_loop_refines[of n h d dkvs D AD s skvs 0 S BS, OF Suc.IH d dd D dAD s z S0 dj sn size]
  obtain h' dkvs' AD' where
    run: "merge_loop n h (VDict d) s (length skvs) 0 = Some (h', None)"
    and d': "h' d = Some dkvs'" and dd': "distinct (map fst dkvs')"
    and D': "repr_items h' dkvs' (merged D S) AD'"
    and dAD': "d \<notin> AD'" and sub: "AD' \<subseteq> AD \<union> BS"
    and frame: "\<And>x. x \<notin> insert d AD \<union> BS \<Longrightarrow> h' x = h x"
    by blast
  have "deep_merge (Suc n) h (VDict d) (VDict s) = Some (h', None)"
    using run s by (simp add: dict_at_def)
  moreover have "repr h' (VDict d) (YDict (merged D S)) (insert d AD')"
    using d' dd' D' dAD' by (rule repr.repr_Dict)
  moreover have "insert d AD' \<subseteq> A \<union> B" using sub A B by auto
  moreover have "\<forall>x. x \<notin> A \<union> B \<longrightarrow> h' x = h x" using frame A B by auto
  ultimately show ?case by blast
qed




subsection \<open>Reading a document\<close>

lemma those_map_sep_list:
  "sep_list P xs ys A \<Longrightarrow> (\<And>x y C. P x y C \<Longrightarrow> y \<in> set ys \<Longrightarrow> f x = Some y)
   \<Longrightarrow> those (map f xs) = Some ys"
  by (induction rule: sep_list.induct) auto

lemma item_size: "it \<in> set its \<Longrightarrow> size (snd it) < Suc (items_size its)"
  by (cases it) (auto dest: item_size_less)

lemma element_size: "x \<in> set xs \<Longrightarrow> size x < Suc (size_list size xs)"
  by (induction xs) auto

text \<open>\<open>unfold\<close> reads the document that a value without shared objects stands for.\<close>

lemma repr_unfold: "repr h v t A \<Longrightarrow> size t < n \<Longrightarrow> unfold n h v = Some t"
proof (induction arbitrary: n rule: repr.induct)
  case (repr_List vs ts A)
  from repr_List.prems obtain m where n: "n = Suc m" by (cases n) simp_all
  have "those (map (unfold m h) vs) = Some ts"
  proof (rule those_map_sep_list[OF repr_List.IH])
    fix x y C assume "repr h x y C \<and> (\<forall>n. size y < n \<longrightarrow> unfold n h x = Some y)" "y \<in> set ts"
    moreover from this(2) have "size y < m" using repr_List.prems n by (auto dest: element_size)
    ultimately show "unfold m h x = Some y" by blast
  qed
  then show ?case unfolding n by simp
next
  case (repr_Dict a kvs its A)
  from repr_Dict.prems obtain m where n: "n = Suc m" by (cases n) simp_all
  have "those (map (\<lambda>kv. map_option (Pair (fst kv)) (unfold m h (snd kv))) kvs) = Some its"
  proof (rule those_map_sep_list[OF repr_Dict.IH])
    fix kv it C
    assume a: "fst kv = fst it \<and> repr h (snd kv) (snd it) C \<and>
                (\<forall>n. size (snd it) < n \<longrightarrow> unfold n h (snd kv) = Some (snd it))"
      and b: "it \<in> set its"
    from b have "size (snd it) < m" using repr_Dict.prems n by (auto dest: item_size)
    with a have "unfold m h (snd kv) = Some (snd it)" by blast
    with a show "map_option (Pair (fst kv)) (unfold m h (snd kv)) = Some it" by simp
  qed
  then show ?case unfolding n using repr_Dict.hyps(1) by simp
next
  case repr_None
  then show ?case by (cases n) simp_all
next
  case (repr_Bool b)
  then show ?case by (cases n) simp_all
next
  case (repr_Int i)
  then show ?case by (cases n) simp_all
next
  case (repr_Float x)
  then show ?case by (cases n) simp_all
next
  case (repr_Str s)
  then show ?case by (cases n) simp_all
qed


subsection \<open>The example without shared objects\<close>

lemma repr_itemsI:
  "repr h v t A \<Longrightarrow> repr_items h kvs its B \<Longrightarrow> A \<inter> B = {} \<Longrightarrow> C = A \<union> B
   \<Longrightarrow> repr_items h ((k, v) # kvs) ((k, t) # its) C"
  using sep_list.sep_Cons[of "\<lambda>kv it A. fst kv = fst it \<and> repr h (snd kv) (snd it) A" "(k, v)" "(k, t)" A kvs its B]
  by simp

lemma repr_DictI:
  "h a = Some kvs \<Longrightarrow> distinct (map fst kvs) \<Longrightarrow> repr_items h kvs its A \<Longrightarrow> a \<notin> A
   \<Longrightarrow> A' = insert a A \<Longrightarrow> repr h (VDict a) (YDict its) A'"
  using repr.repr_Dict[of h a kvs its A] by simp

lemma tree_example_1: "repr tree_example (VDict 1) (YDict [(''x'', YInt 1)]) {1}"
  by (rule repr_DictI[where A = "{}" and kvs = "[(''x'', VInt 1)]"], simp add: tree_example_def,
      simp, rule repr_itemsI[where A = "{}" and B = "{}"])
     (simp_all add: repr.intros sep_list.intros)

lemma tree_example_0:
  "repr tree_example (VDict 0) (YDict [(''a'', YDict [(''x'', YInt 1)]), (''b'', YInt 2)]) {0, 1}"
  by (rule repr_DictI[where A = "{1::nat}" and kvs = "[(''a'', VDict 1), (''b'', VInt 2)]"],
      simp add: tree_example_def, simp,
      rule repr_itemsI[where A = "{1::nat}" and B = "{}"], rule tree_example_1,
      rule repr_itemsI[where A = "{}" and B = "{}"])
     (simp_all add: repr.intros sep_list.intros)

lemma tree_example_3:
  "repr tree_example (VDict 3) (YDict [(''y'', YInt 4), (''z'', YInt 5)]) {3}"
  by (rule repr_DictI[where A = "{}" and kvs = "[(''y'', VInt 4), (''z'', VInt 5)]"],
      simp add: tree_example_def, simp,
      rule repr_itemsI[where A = "{}" and B = "{}"], rule repr.intros,
      rule repr_itemsI[where A = "{}" and B = "{}"])
     (simp_all add: repr.intros sep_list.intros)

lemma tree_example_2:
  "repr tree_example (VDict 2)
     (YDict [(''c'', YInt 3), (''a'', YDict [(''y'', YInt 4), (''z'', YInt 5)])]) {2, 3}"
  by (rule repr_DictI[where A = "{3::nat}" and kvs = "[(''c'', VInt 3), (''a'', VDict 3)]"],
      simp add: tree_example_def, simp,
      rule repr_itemsI[where A = "{}" and B = "{3::nat}"], rule repr.intros,
      rule repr_itemsI[where A = "{3::nat}" and B = "{}"], rule tree_example_3)
     (simp_all add: repr.intros sep_list.intros)

lemma tree_example_5:
  "repr tree_example (VDict 5) (YDict [(''z'', YInt 5), (''y'', YInt 4)]) {5}"
  by (rule repr_DictI[where A = "{}" and kvs = "[(''z'', VInt 5), (''y'', VInt 4)]"],
      simp add: tree_example_def, simp,
      rule repr_itemsI[where A = "{}" and B = "{}"], rule repr.intros,
      rule repr_itemsI[where A = "{}" and B = "{}"])
     (simp_all add: repr.intros sep_list.intros)

lemma tree_example_4:
  "repr tree_example (VDict 4)
     (YDict [(''a'', YDict [(''z'', YInt 5), (''y'', YInt 4)]), (''c'', YInt 3)]) {4, 5}"
  by (rule repr_DictI[where A = "{5::nat}" and kvs = "[(''a'', VDict 5), (''c'', VInt 3)]"],
      simp add: tree_example_def, simp,
      rule repr_itemsI[where A = "{5::nat}" and B = "{}"], rule tree_example_5,
      rule repr_itemsI[where A = "{}" and B = "{}"])
     (simp_all add: repr.intros sep_list.intros)

text \<open>The mapping at address 0 of \<open>alias_example\<close> is no document without shared objects.\<close>

lemma alias_example_shared: "\<not> repr alias_example (VDict 0) t A"
proof
  assume "repr alias_example (VDict 0) t A"
  then obtain its B where
    "repr_items alias_example [(''a'', VDict 1), (''b'', VDict 1)] its B"
    by (auto elim!: repr_DictE simp: alias_example_def)
  then obtain ta tb A1 A2 where
    "repr alias_example (VDict 1) ta A1" "repr alias_example (VDict 1) tb A2" "A1 \<inter> A2 = {}"
    by (auto elim!: sep_list.cases)
  then show False by (auto elim!: repr_DictE)
qed

subsection \<open>The merge on values and the merge on the heap\<close>

text \<open>
  \<open>deep_merge\<close> computes \<open>deep_merge_value\<close>: on two documents without shared objects that
  stand apart from each other, with a bound on the nesting above the size of the source,
  the call raises what \<open>deep_merge_value\<close> raises, and then leaves the heap as it is, or
  it returns and the destination stands for the document that \<open>deep_merge_value\<close> gives.
\<close>

theorem deep_merge_on_values:
  assumes "repr h d D A" "repr h s S B" "A \<inter> B = {}" "size S < depth"
  shows "case deep_merge_value D S of
           Inr r \<Rightarrow> \<exists>h' A'. deep_merge depth h d s = Some (h', None) \<and> repr h' d r A'
         | Inl e \<Rightarrow> deep_merge depth h d s = Some (h, Some e)"
proof -
  from assms(4) obtain n where depth: "depth = Suc n" by (cases depth) simp_all
  show ?thesis
  proof (cases "isdict S")
    case False
    then have "deep_merge_value D S = Inl AttributeError"
      by (cases S) (simp_all add: deep_merge_value.simps)
    moreover have "\<not> is_dict s" using False repr_is_dict[OF assms(2)] by simp
    then have "deep_merge depth h d s = Some (h, Some AttributeError)"
      unfolding depth by (cases s) simp_all
    ultimately show ?thesis by simp
  next
    case True
    then obtain Sk where S: "S = YDict Sk" by (cases S) simp_all
    from assms(2) S obtain sa where s: "s = VDict sa"
      using repr_is_dict[OF assms(2)] by (cases s) simp_all
    from assms(2) obtain skvs BS where
      sa: "h sa = Some skvs" and Sk: "repr_items h skvs Sk BS"
      unfolding s S by (auto elim: repr_DictE)
    show ?thesis
    proof (cases "isdict D")
      case True
      then obtain Dk where D: "D = YDict Dk" by (cases D) simp_all
      from assms(1) D obtain da where d: "d = VDict da"
        using repr_is_dict[OF assms(1)] by (cases d) simp_all
      have "size (YDict Sk) \<le> depth" using assms(4) S by simp
      from deep_merge_refines[OF assms(1)[unfolded d D] assms(2)[unfolded s S] assms(3) this]
      show ?thesis unfolding d s D S by (auto simp: deep_merge_value_dicts)
    next
      case False
      then have nd: "\<not> is_dict d" using repr_is_dict[OF assms(1)] by simp
      show ?thesis
      proof (cases Sk)
        case Nil
        with Sk have "skvs = []" by (auto elim: sep_list.cases)
        then have "deep_merge depth h d s = Some (h, None)"
          unfolding depth s using sa by (simp add: dict_at_def merge_loop.simps)
        moreover have "deep_merge_value D S = Inr D"
          unfolding S Nil by (simp add: deep_merge_value.simps)
        ultimately show ?thesis using assms(1) by auto
      next
        case (Cons kt rest)
        have "deep_merge_value D S = Inl TypeError"
          unfolding S Cons using False deep_merge_value_raises[of S D kt rest] by simp
        moreover from Sk Cons obtain kv rest' where skvs: "skvs = kv # rest'"
          by (auto elim: sep_list.cases)
        have "deep_merge depth h d s = Some (h, Some TypeError)"
          unfolding depth s using sa nd skvs
          by (cases d; cases kv)
             (simp_all add: dict_at_def merge_loop.simps split: sum.splits bool.splits)
        ultimately show ?thesis by simp
      qed
    qed
  qed
qed


theorem deep_merge_on_values_witness:
  "repr tree_example (VDict 0) (YDict [(''a'', YDict [(''x'', YInt 1)]), (''b'', YInt 2)]) {0, 1} \<and>
   repr tree_example (VDict 2)
     (YDict [(''c'', YInt 3), (''a'', YDict [(''y'', YInt 4), (''z'', YInt 5)])]) {2, 3} \<and>
   {0, 1} \<inter> {2, 3 :: addr} = {} \<and>
   size (YDict [(''c'', YInt 3), (''a'', YDict [(''y'', YInt 4), (''z'', YInt 5 :: unit yaml)])]) < 20 \<and>
   (\<exists>h' A'. deep_merge 20 tree_example (VDict 0) (VDict 2) = Some (h', None) \<and>
      repr h' (VDict 0)
        (YDict [(''a'', YDict [(''x'', YInt 1), (''y'', YInt 4), (''z'', YInt 5)]),
                (''b'', YInt 2), (''c'', YInt 3)]) A')"
proof -
  let ?D = "YDict [(''a'', YDict [(''x'', YInt 1)]), (''b'', YInt 2 :: unit yaml)]"
  let ?S = "YDict [(''c'', YInt 3), (''a'', YDict [(''y'', YInt 4), (''z'', YInt 5 :: unit yaml)])]"
  have dj: "{0, 1} \<inter> {2, 3 :: addr} = {}" by simp
  have sz: "size ?S < 20" by simp
  have v: "deep_merge_value ?D ?S
      = Inr (YDict [(''a'', YDict [(''x'', YInt 1), (''y'', YInt 4), (''z'', YInt 5)]),
                    (''b'', YInt 2), (''c'', YInt 3)])"
    by (simp add: deep_merge_value_dicts)
  from deep_merge_on_values[OF tree_example_0 tree_example_2 dj sz]
  have "\<exists>h' A'. deep_merge 20 tree_example (VDict 0) (VDict 2) = Some (h', None) \<and>
      repr h' (VDict 0)
        (YDict [(''a'', YDict [(''x'', YInt 1), (''y'', YInt 4), (''z'', YInt 5)]),
                (''b'', YInt 2), (''c'', YInt 3)]) A'"
    unfolding v by simp
  with tree_example_0 tree_example_2 dj sz show ?thesis by (intro conjI)
qed


subsection \<open>The keys and the values after the merge\<close>

text \<open>
  A destination that contains itself. In \<open>cycle_example\<close> the key \<^verbatim>\<open>k\<close> is in \<open>dest\<close> (at
  address 0) and in \<open>source\<close> (at address 1) and none of its two values is a mapping; the
  turn for \<^verbatim>\<open>k\<close> stores the value 2 of \<open>source\<close>, and the turn for \<^verbatim>\<open>self\<close> then merges
  \<^verbatim>\<open>{k: 3}\<close> into \<open>dest\<close> itself: after the call \<open>dest\<close> holds 3 at \<^verbatim>\<open>k\<close>.
\<close>

lemma deep_merge_cycle_example:
  "deep_merge 2 cycle_example (VDict 0) (VDict 1)
     = Some (cycle_example(0 \<mapsto> [(''self'', VDict 0), (''k'', VInt 3)]), None)"
  by (simp add: cycle_example_def eval_nat_numeral merge_loop.simps dict_at_def)

text \<open>
  C1. The claim is made for every pair of mappings. It fails when a mapping object occurs
  at two places of \<open>dest\<close>. In \<open>alias_example\<close>, \<open>dest\<close> (at address 0) reads
  \<^verbatim>\<open>{a: {x: 1}, b: {x: 1}}\<close> with one object under both keys, and \<open>source\<close> (at address 2)
  reads \<^verbatim>\<open>{a: {x: 2}, b: {x: 3}}\<close>. The key \<^verbatim>\<open>a\<close> is in both and both values are mappings;
  in these the key \<^verbatim>\<open>x\<close> is shared and its values are no mappings, so by the claim the source
  value 2 wins at \<^verbatim>\<open>a.x\<close>: the claim gives \<^verbatim>\<open>{a: {x: 2}, b: {x: 3}}\<close>, and \<^verbatim>\<open>{x: 2}\<close> is also what
  the merge of the two sub-mappings at \<^verbatim>\<open>a\<close> leaves when it is run alone. After the call
  \<open>dest\<close> reads \<^verbatim>\<open>{a: {x: 3}, b: {x: 3}}\<close>: the turn for \<^verbatim>\<open>b\<close> has updated the object that is
  also the value at \<^verbatim>\<open>a\<close>. With the source \<^verbatim>\<open>{a: {y: 2}}\<close> (at address 6), which has no key
  \<^verbatim>\<open>b\<close>, the value of \<open>dest\<close> at \<^verbatim>\<open>b\<close> changes with the value at \<^verbatim>\<open>a\<close>.
\<close>

theorem deep_merge_alias_counterexample:
  "unfold 3 alias_example (VDict 0)
     = Some (YDict [(''a'', YDict [(''x'', YInt 1)]), (''b'', YDict [(''x'', YInt 1)])]) \<and>
   unfold 3 alias_example (VDict 2)
     = Some (YDict [(''a'', YDict [(''x'', YInt 2)]), (''b'', YDict [(''x'', YInt 3)])]) \<and>
   merged [(''a'', YDict [(''x'', YInt 1)]), (''b'', YDict [(''x'', YInt 1 :: unit yaml)])]
          [(''a'', YDict [(''x'', YInt 2)]), (''b'', YDict [(''x'', YInt 3)])]
     = [(''a'', YDict [(''x'', YInt 2)]), (''b'', YDict [(''x'', YInt 3)])] \<and>
   deep_merge 1 alias_example (VDict 1) (VDict 3)
     = Some (alias_example(1 \<mapsto> [(''x'', VInt 2)]), None) \<and>
   deep_merge 2 alias_example (VDict 0) (VDict 2)
     = Some (alias_example(1 \<mapsto> [(''x'', VInt 3)]), None) \<and>
   unfold 3 (alias_example(1 \<mapsto> [(''x'', VInt 3)])) (VDict 0)
     = Some (YDict [(''a'', YDict [(''x'', YInt 3)]), (''b'', YDict [(''x'', YInt 3)])]) \<and>
   unfold 3 (alias_example(1 \<mapsto> [(''x'', VInt 3)])) (VDict 0)
     \<noteq> Some (YDict (merged [(''a'', YDict [(''x'', YInt 1)]), (''b'', YDict [(''x'', YInt 1)])]
                              [(''a'', YDict [(''x'', YInt 2)]), (''b'', YDict [(''x'', YInt 3)])])) \<and>
   unfold 3 alias_example (VDict 6) = Some (YDict [(''a'', YDict [(''y'', YInt 2)])]) \<and>
   deep_merge 2 alias_example (VDict 0) (VDict 6)
     = Some (alias_example(1 \<mapsto> [(''x'', VInt 1), (''y'', VInt 2)]), None) \<and>
   unfold 3 (alias_example(1 \<mapsto> [(''x'', VInt 1), (''y'', VInt 2)])) (VDict 0)
     = Some (YDict [(''a'', YDict [(''x'', YInt 1), (''y'', YInt 2)]),
                    (''b'', YDict [(''x'', YInt 1), (''y'', YInt 2)])])"
  by (simp add: alias_example_def eval_nat_numeral merge_loop.simps dict_at_def)

text \<open>
  C1, amended. For two mappings \<open>dest\<close> and \<open>source\<close> in each of which no mapping object
  occurs at two places, and which have no object in common, the call returns (with a
  bound on the nesting of at least the size of \<open>source\<close>) and raises nothing, and \<open>dest\<close>
  is then a mapping \<open>r\<close>, again without shared objects. The keys of \<open>r\<close> are the keys of
  \<open>dest\<close> together with the keys of \<open>source\<close>. A key that \<open>source\<close> does not have keeps
  the value of \<open>dest\<close>. At a key where both hold mappings, \<open>r\<close> holds what the call on the
  two sub-mappings leaves in the first of them. At every other key of \<open>source\<close> (the key
  is new, or one of the two values is not a mapping), \<open>r\<close> holds the value of \<open>source\<close>.
\<close>

theorem deep_merge_spec:
  assumes "repr h (VDict d) (YDict dest) A" "repr h (VDict s) (YDict source) B" "A \<inter> B = {}"
    and "size (YDict source) \<le> depth"
  shows "\<exists>h' r A'. deep_merge depth h (VDict d) (VDict s) = Some (h', None) \<and>
          repr h' (VDict d) (YDict r) A' \<and>
          fst ` set r = fst ` set dest \<union> fst ` set source \<and>
          (\<forall>key. map_of source key = None \<longrightarrow> map_of r key = map_of dest key) \<and>
          (\<forall>key sd sv. map_of dest key = Some (YDict sd) \<and> map_of source key = Some (YDict sv) \<longrightarrow>
             (\<exists>a b h'' sub A''.
                map_of (dict_at h d) key = Some (VDict a) \<and>
                map_of (dict_at h s) key = Some (VDict b) \<and>
                deep_merge depth h (VDict a) (VDict b) = Some (h'', None) \<and>
                repr h'' (VDict a) sub A'' \<and> map_of r key = Some sub)) \<and>
          (\<forall>key value. map_of source key = Some value \<and>
               \<not> (isdict value \<and> (\<exists>sd. map_of dest key = Some (YDict sd))) \<longrightarrow>
             map_of r key = Some value)"
proof -
  let ?r = "merged dest source"
  from assms(1) obtain dkvs AD where
    d: "h d = Some dkvs" and D: "repr_items h dkvs dest AD" and A: "A = insert d AD"
    by (auto elim: repr_DictE)
  from assms(2) obtain skvs BS where
    s: "h s = Some skvs" and S: "repr_items h skvs source BS" and B: "B = insert s BS"
    and ds: "distinct (map fst skvs)"
    by (auto elim: repr_DictE)
  have dist: "distinct (map fst source)" using ds repr_items_keys[OF S] by simp
  from deep_merge_refines[OF assms] obtain h' A' where
    1: "deep_merge depth h (VDict d) (VDict s) = Some (h', None)"
    and 2: "repr h' (VDict d) (YDict ?r) A'"
    by blast
  have 3: "fst ` set ?r = fst ` set dest \<union> fst ` set source"
    by (rule keys_merged)
  have 4: "map_of ?r key = map_of dest key" if "map_of source key = None" for key
    using that by (simp add: map_of_merged[OF dist])
  have 5: "\<exists>a b h'' sub A''.
             map_of (dict_at h d) key = Some (VDict a) \<and>
             map_of (dict_at h s) key = Some (VDict b) \<and>
             deep_merge depth h (VDict a) (VDict b) = Some (h'', None) \<and>
             repr h'' (VDict a) sub A'' \<and> map_of ?r key = Some sub"
    if k: "map_of dest key = Some (YDict sd) \<and> map_of source key = Some (YDict sv)" for key sd sv
  proof -
    from repr_items_value[OF D] k obtain w Cw where
      w: "map_of dkvs key = Some w" and rw: "repr h w (YDict sd) Cw" and Cw: "Cw \<subseteq> AD"
      by blast
    from repr_items_value[OF S] k obtain v Cv where
      v: "map_of skvs key = Some v" and rv: "repr h v (YDict sv) Cv" and Cv: "Cv \<subseteq> BS"
      by blast
    from rw obtain a where wa: "w = VDict a" using repr_is_dict[OF rw] by (cases w) simp_all
    from rv obtain b where vb: "v = VDict b" using repr_is_dict[OF rv] by (cases v) simp_all
    have dj: "Cw \<inter> Cv = {}" using Cw Cv assms(3) A B by auto
    have "items_size sv < items_size source" by (rule map_of_size_less[OF k[THEN conjunct2]])
    then have sz: "size (YDict sv) \<le> depth" using assms(4) by simp
    from deep_merge_refines[OF rw[unfolded wa] rv[unfolded vb] dj sz] obtain h'' A'' where
      "deep_merge depth h (VDict a) (VDict b) = Some (h'', None)"
      "repr h'' (VDict a) (YDict (merged sd sv)) A''"
      by blast
    moreover have "map_of ?r key = Some (YDict (merged sd sv))"
      using k by (simp add: map_of_merged[OF dist] merge_value_def)
    moreover have "map_of (dict_at h d) key = Some (VDict a)" using w wa d by (simp add: dict_at_def)
    moreover have "map_of (dict_at h s) key = Some (VDict b)" using v vb s by (simp add: dict_at_def)
    ultimately show ?thesis by blast
  qed
  have 6: "map_of ?r key = Some v"
    if a: "map_of source key = Some v \<and> \<not> (isdict v \<and> (\<exists>sd. map_of dest key = Some (YDict sd)))"
    for key v
  proof -
    from a have "merge_value (map_of dest key) v = v"
      unfolding merge_value_def by (auto split: option.splits yaml.splits)
    with a show ?thesis by (simp add: map_of_merged[OF dist])
  qed
  from 1 2 3 4 5 6 show ?thesis by blast
qed

theorem deep_merge_spec_witness:
  "repr tree_example (VDict 0) (YDict [(''a'', YDict [(''x'', YInt 1)]), (''b'', YInt 2)]) {0, 1} \<and>
   repr tree_example (VDict 2)
     (YDict [(''c'', YInt 3), (''a'', YDict [(''y'', YInt 4), (''z'', YInt 5)])]) {2, 3} \<and>
   {0, 1} \<inter> {2, 3 :: addr} = {} \<and>
   size (YDict [(''c'', YInt 3), (''a'', YDict [(''y'', YInt 4), (''z'', YInt 5 :: unit yaml)])]) \<le> 20 \<and>
   (\<exists>h' r A'. deep_merge 20 tree_example (VDict 0) (VDict 2) = Some (h', None) \<and>
      repr h' (VDict 0) (YDict r) A' \<and>
      fst ` set r = {''a'', ''b'', ''c''} \<and>
      map_of r ''b'' = Some (YInt 2) \<and>
      map_of r ''c'' = Some (YInt 3))"
proof -
  let ?dest = "[(''a'', YDict [(''x'', YInt 1)]), (''b'', YInt 2 :: unit yaml)]"
  let ?source = "[(''c'', YInt 3), (''a'', YDict [(''y'', YInt 4), (''z'', YInt 5 :: unit yaml)])]"
  have dj: "{0, 1} \<inter> {2, 3 :: addr} = {}" by simp
  have sz: "size (YDict ?source) \<le> 20" by simp
  from deep_merge_spec[OF tree_example_0 tree_example_2 dj sz] obtain h' r A' where
    run: "deep_merge 20 tree_example (VDict 0) (VDict 2) = Some (h', None)"
    and r: "repr h' (VDict 0) (YDict r) A'"
    and k: "fst ` set r = fst ` set ?dest \<union> fst ` set ?source"
    and keep: "\<forall>key. map_of ?source key = None \<longrightarrow> map_of r key = map_of ?dest key"
    and wins: "\<forall>key v. map_of ?source key = Some v \<and>
               \<not> (isdict v \<and> (\<exists>sd. map_of ?dest key = Some (YDict sd))) \<longrightarrow>
             map_of r key = Some v"
    by blast
  from keep[rule_format, of "''b''"] have b: "map_of r ''b'' = Some (YInt 2)" by simp
  from wins[rule_format, of "''c''" "YInt 3"] have c: "map_of r ''c'' = Some (YInt 3)" by simp
  from k have k': "fst ` set r = {''a'', ''b'', ''c''}" by auto
  from run r k' b c have "\<exists>h' r A'. deep_merge 20 tree_example (VDict 0) (VDict 2) = Some (h', None) \<and>
      repr h' (VDict 0) (YDict r) A' \<and>
      fst ` set r = {''a'', ''b'', ''c''} \<and>
      map_of r ''b'' = Some (YInt 2) \<and>
      map_of r ''c'' = Some (YInt 3)" by blast
  with tree_example_0 tree_example_2 dj sz show ?thesis by (intro conjI)
qed

subsection \<open>The order of the keys of the source\<close>

text \<open>
  C8. The claim is made for every pair of mappings. It fails when a mapping object occurs
  at two places of \<open>dest\<close>. In \<open>alias_example\<close>, \<open>dest\<close> (at address 0) reads
  \<^verbatim>\<open>{a: {x: 1}, b: {x: 1}}\<close> with one object under both keys; the mappings at 2 and at 5
  both read \<^verbatim>\<open>{a: {x: 2}, b: {x: 3}}\<close>, the first with the keys in the order \<^verbatim>\<open>a\<close>, \<^verbatim>\<open>b\<close> and
  the second in the order \<^verbatim>\<open>b\<close>, \<^verbatim>\<open>a\<close>. Merging the first leaves \<^verbatim>\<open>x\<close> at 3 under both keys
  of \<open>dest\<close>, merging the second leaves it at 2: the turn that comes last wins.
\<close>

theorem deep_merge_order_counterexample:
  "unfold 3 alias_example (VDict 0)
     = Some (YDict [(''a'', YDict [(''x'', YInt 1)]), (''b'', YDict [(''x'', YInt 1)])]) \<and>
   unfold 3 alias_example (VDict 2)
     = Some (YDict [(''a'', YDict [(''x'', YInt 2)]), (''b'', YDict [(''x'', YInt 3)])]) \<and>
   unfold 3 alias_example (VDict 5)
     = Some (YDict [(''b'', YDict [(''x'', YInt 3)]), (''a'', YDict [(''x'', YInt 2)])]) \<and>
   same_mapping (YDict [(''a'', YDict [(''x'', YInt 2)]), (''b'', YDict [(''x'', YInt 3 :: unit yaml)])])
                (YDict [(''b'', YDict [(''x'', YInt 3)]), (''a'', YDict [(''x'', YInt 2)])]) \<and>
   deep_merge 2 alias_example (VDict 0) (VDict 2)
     = Some (alias_example(1 \<mapsto> [(''x'', VInt 3)]), None) \<and>
   deep_merge 2 alias_example (VDict 0) (VDict 5)
     = Some (alias_example(1 \<mapsto> [(''x'', VInt 2)]), None) \<and>
   unfold 3 (alias_example(1 \<mapsto> [(''x'', VInt 3)])) (VDict 0)
     = Some (YDict [(''a'', YDict [(''x'', YInt 3)]), (''b'', YDict [(''x'', YInt 3)])]) \<and>
   unfold 3 (alias_example(1 \<mapsto> [(''x'', VInt 2)])) (VDict 0)
     = Some (YDict [(''a'', YDict [(''x'', YInt 2)]), (''b'', YDict [(''x'', YInt 2)])]) \<and>
   \<not> same_mapping (YDict [(''a'', YDict [(''x'', YInt 3)]), (''b'', YDict [(''x'', YInt 3 :: unit yaml)])])
                  (YDict [(''a'', YDict [(''x'', YInt 2)]), (''b'', YDict [(''x'', YInt 2)])])"
  by (simp add: alias_example_def eval_nat_numeral merge_loop.simps dict_at_def insert_commute)

text \<open>
  C8, amended. For mappings \<open>dest\<close>, \<open>source\<close> and \<open>source'\<close> in each of which no mapping
  object occurs at two places, with \<open>dest\<close> having no object in common with the other
  two: when \<open>source\<close> and \<open>source'\<close> are the same mapping up to the order of their keys,
  at every level (\<open>permuted_same_mapping\<close>: a permutation of the items is one), merging
  either into \<open>dest\<close> returns and raises nothing, and what \<open>dest\<close> then holds is the same
  mapping up to the order of its keys. The order in which a new key is inserted follows
  the source and is not part of the mapping.
\<close>

theorem deep_merge_order_independent:
  assumes "repr h (VDict d) (YDict dest) A" "repr h (VDict s) (YDict source) B"
    and "repr h (VDict s') (YDict source') B'" "A \<inter> B = {}" "A \<inter> B' = {}"
    and "same_mapping (YDict source) (YDict source')"
    and "size (YDict source) \<le> depth" "size (YDict source') \<le> depth'"
  shows "\<exists>h1 r A1 h2 r' A2.
           deep_merge depth h (VDict d) (VDict s) = Some (h1, None) \<and> repr h1 (VDict d) r A1 \<and>
           deep_merge depth' h (VDict d) (VDict s') = Some (h2, None) \<and> repr h2 (VDict d) r' A2 \<and>
           same_mapping r r'"
proof -
  from deep_merge_refines[OF assms(1,2,4,7)] obtain h1 A1 where
    1: "deep_merge depth h (VDict d) (VDict s) = Some (h1, None)"
      "repr h1 (VDict d) (YDict (merged dest source)) A1"
    by blast
  from deep_merge_refines[OF assms(1,3,5,8)] obtain h2 A2 where
    2: "deep_merge depth' h (VDict d) (VDict s') = Some (h2, None)"
      "repr h2 (VDict d) (YDict (merged dest source')) A2"
    by blast
  have "same_mapping (YDict (merged dest source)) (YDict (merged dest source'))"
    using repr_well_formed[OF assms(1)] repr_well_formed[OF assms(2)]
      repr_well_formed[OF assms(3)] assms(6)
    by (rule same_mapping_merged)
  with 1 2 show ?thesis by blast
qed

theorem deep_merge_order_independent_witness:
  "repr tree_example (VDict 0) (YDict [(''a'', YDict [(''x'', YInt 1)]), (''b'', YInt 2)]) {0, 1} \<and>
   repr tree_example (VDict 2)
     (YDict [(''c'', YInt 3), (''a'', YDict [(''y'', YInt 4), (''z'', YInt 5)])]) {2, 3} \<and>
   repr tree_example (VDict 4)
     (YDict [(''a'', YDict [(''z'', YInt 5), (''y'', YInt 4)]), (''c'', YInt 3)]) {4, 5} \<and>
   {0, 1} \<inter> {2, 3 :: addr} = {} \<and> {0, 1} \<inter> {4, 5 :: addr} = {} \<and>
   same_mapping (YDict [(''c'', YInt 3), (''a'', YDict [(''y'', YInt 4), (''z'', YInt 5 :: unit yaml)])])
                (YDict [(''a'', YDict [(''z'', YInt 5), (''y'', YInt 4)]), (''c'', YInt 3)]) \<and>
   (\<exists>h1 r A1 h2 r' A2.
      deep_merge 20 tree_example (VDict 0) (VDict 2) = Some (h1, None) \<and>
      repr h1 (VDict 0) r A1 \<and>
      deep_merge 20 tree_example (VDict 0) (VDict 4) = Some (h2, None) \<and>
      repr h2 (VDict 0) r' A2 \<and> same_mapping r r')"
proof -
  let ?s = "[(''c'', YInt 3), (''a'', YDict [(''y'', YInt 4), (''z'', YInt 5 :: unit yaml)])]"
  let ?s' = "[(''a'', YDict [(''z'', YInt 5), (''y'', YInt 4 :: unit yaml)]), (''c'', YInt 3)]"
  have 1: "{0, 1} \<inter> {2, 3 :: addr} = {}" by simp
  have 2: "{0, 1} \<inter> {4, 5 :: addr} = {}" by simp
  have 3: "same_mapping (YDict ?s) (YDict ?s')" by (simp add: insert_commute)
  have 4: "size (YDict ?s) \<le> 20" by simp
  have 5: "size (YDict ?s') \<le> 20" by simp
  from tree_example_0 tree_example_2 tree_example_4 1 2 3
    deep_merge_order_independent[OF tree_example_0 tree_example_2 tree_example_4 1 2 3 4 5]
  show ?thesis by (intro conjI)
qed


section \<open>Properties of the configuration manager\<close>

subsection \<open>Loading\<close>

lemma load_default_config_fails:
  "is_Exception e \<Longrightarrow>
   load_default_config m (Inl e) =
     (log_call ERROR ''Error loading default config: '' (Some e) m, Inl (SystemExit 1))"
  by (simp add: load_default_config_def)

lemma load_custom_config_fails:
  "is_Exception e \<Longrightarrow>
   load_custom_config m config_path (Inl e) =
     (log_call ERROR (''Error loading custom config from '' @ config_path @ '': '') (Some e) m,
      Inr ())"
  by (simp add: load_custom_config_def)

lemma config_log_call: "config (log_call lvl msg exc m) = config m"
  by (simp add: log_call_def)

lemma env_log_call: "env (log_call lvl msg exc m) = env m"
  by (simp add: log_call_def)

lemma logged_log_call: "logged (log_call lvl msg exc m) = logged m @ [(lvl, msg, exc)]"
  by (simp add: log_call_def)

text \<open>
  C3. When opening or parsing the default document raises an exception \<open>e\<close> (the file is
  missing or is not valid YAML), \<^verbatim>\<open>_load_default_config\<close> leaves with \<^verbatim>\<open>SystemExit\<close> and
  a status that is not zero, and so does the loading as a whole. When the default
  document is loaded and opening or parsing the custom document raises \<open>e\<close>,
  \<^verbatim>\<open>_load_custom_config\<close> returns normally, the configuration is the one it was before
  (the default document, nothing of a merge), and the one record added to the log is the
  error with \<open>e\<close>.
\<close>

theorem load_configs_failures:
  assumes "is_Exception e"
  shows "(\<exists>status. status \<noteq> 0 \<and> snd (load_default_config m (Inl e)) = Inl (SystemExit status)) \<and>
         (\<exists>status. status \<noteq> 0 \<and>
            snd (load_configs env_name (Inl e) custom) = Inl (SystemExit status)) \<and>
         (\<exists>m'. load_custom_config m config_path (Inl e) = (m', Inr ()) \<and>
            config m' = config m \<and>
            logged m' = logged m @
              [(ERROR, ''Error loading custom config from '' @ config_path @ '': '', Some e)]) \<and>
         (\<exists>m'. load_configs env_name (Inr base) (Some (config_path, Inl e)) = (m', Inr ()) \<and>
            config m' = base \<and>
            logged m' =
              [(DEBUG, ''Loaded default configuration'', None),
               (ERROR, ''Error loading custom config from '' @ config_path @ '': '', Some e)])"
proof -
  have 1: "snd (load_default_config m (Inl e)) = Inl (SystemExit 1)"
    using assms by (simp add: load_default_config_fails)
  have 2: "snd (load_configs env_name (Inl e) custom) = Inl (SystemExit 1)"
    using assms by (simp add: load_configs_def load_default_config_fails)
  have 3: "\<exists>m'. load_custom_config m config_path (Inl e) = (m', Inr ()) \<and>
            config m' = config m \<and>
            logged m' = logged m @
              [(ERROR, ''Error loading custom config from '' @ config_path @ '': '', Some e)]"
    using assms by (simp add: load_custom_config_fails config_log_call logged_log_call)
  have 4: "\<exists>m'. load_configs env_name (Inr base) (Some (config_path, Inl e)) = (m', Inr ()) \<and>
            config m' = base \<and>
            logged m' =
              [(DEBUG, ''Loaded default configuration'', None),
               (ERROR, ''Error loading custom config from '' @ config_path @ '': '', Some e)]"
    using assms
    by (simp add: load_configs_def load_default_config_def load_custom_config_fails
        config_log_call logged_log_call)
  from 1 2 have "\<exists>status. status \<noteq> 0 \<and> snd (load_default_config m (Inl e)) = Inl (SystemExit status)"
    "\<exists>status. status \<noteq> 0 \<and> snd (load_configs env_name (Inl e) custom) = Inl (SystemExit status)"
    by auto
  with 3 4 show ?thesis by blast
qed

theorem load_configs_failures_witness:
  "is_Exception YAMLError \<and>
   load_configs ''local'' (Inl YAMLError) (Some (''custom.yml'', Inl YAMLError))
     = (\<lparr>config = YDict [], env = ''local'',
         logged = [(ERROR, ''Error loading default config: '', Some YAMLError)]\<rparr> :: unit config_manager,
        Inl (SystemExit 1)) \<and>
   (\<exists>m' :: unit config_manager.
      load_configs ''local'' (Inr (YDict [(''a'', YInt 1)])) (Some (''custom.yml'', Inl YAMLError))
        = (m', Inr ()) \<and>
      config m' = YDict [(''a'', YInt 1)] \<and>
      logged m' =
        [(DEBUG, ''Loaded default configuration'', None),
         (ERROR, ''Error loading custom config from custom.yml: '', Some YAMLError)])"
proof -
  have e: "is_Exception YAMLError" by simp
  have d: "load_configs ''local'' (Inl YAMLError) (Some (''custom.yml'', Inl YAMLError))
     = (\<lparr>config = YDict [], env = ''local'',
         logged = [(ERROR, ''Error loading default config: '', Some YAMLError)]\<rparr> :: unit config_manager,
        Inl (SystemExit 1))"
    by (simp add: load_configs_def load_default_config_def log_call_def)
  note w = load_configs_failures[OF e,
      of "\<lparr>config = YDict [], env = ''local'', logged = []\<rparr> :: unit config_manager"
         "''local''" None "''custom.yml''" "YDict [(''a'', YInt 1)]",
      THEN conjunct2, THEN conjunct2, THEN conjunct2]
  have c: "\<exists>m' :: unit config_manager.
      load_configs ''local'' (Inr (YDict [(''a'', YInt 1)])) (Some (''custom.yml'', Inl YAMLError))
        = (m', Inr ()) \<and>
      config m' = YDict [(''a'', YInt 1)] \<and>
      logged m' =
        [(DEBUG, ''Loaded default configuration'', None),
         (ERROR, ''Error loading custom config from custom.yml: '', Some YAMLError)]"
    using w by simp
  show ?thesis by (rule conjI[OF e conjI[OF d c]])
qed


text \<open>
  Whatever opening and parsing the custom document gives (a document of any shape
  without shared objects, or an exception that is a subclass of \<^verbatim>\<open>Exception\<close>),
  \<^verbatim>\<open>_load_custom_config\<close> returns
  normally and keeps the environment name. Either the document was read and merged, the
  configuration is the result of the merge and the log has one more debug record; or
  reading or merging raised, the configuration is exactly the one before, and the log has
  one more error record, with the exception.
\<close>

theorem load_custom_config_atomic:
  assumes "case doc of Inl e \<Rightarrow> is_Exception e | Inr custom_config \<Rightarrow> True"
  shows "\<exists>m'. load_custom_config m config_path doc = (m', Inr ()) \<and> env m' = env m \<and>
           ((\<exists>custom_config dest. doc = Inr custom_config \<and>
                deep_merge_value (config m) custom_config = Inr dest \<and> config m' = dest \<and>
                logged m' = logged m @
                  [(DEBUG, ''Loaded custom configuration from '' @ config_path, None)]) \<or>
            (config m' = config m \<and>
             (\<exists>e. (doc = Inl e \<or>
                   (\<exists>custom_config. doc = Inr custom_config \<and>
                      deep_merge_value (config m) custom_config = Inl e)) \<and>
                  logged m' = logged m @
                    [(ERROR, ''Error loading custom config from '' @ config_path @ '': '',
                      Some e)])))"
proof (cases doc)
  case (Inl e)
  with assms have "is_Exception e" by simp
  with Inl show ?thesis
    by (simp add: load_custom_config_def config_log_call logged_log_call env_log_call)
next
  case (Inr custom_config)
  show ?thesis
  proof (cases "deep_merge_value (config m) custom_config")
    case (Inl e)
    then have "is_Exception e" using deep_merge_value_error[OF Inl] by auto
    with Inl Inr show ?thesis
      by (simp add: load_custom_config_def config_log_call logged_log_call env_log_call)
  next
    case merged: (Inr dest)
    with Inr show ?thesis
      by (simp add: load_custom_config_def log_call_def)
  qed
qed

theorem load_custom_config_atomic_witness:
  "(case Inr (YList [YStr ''a'']) :: error + unit yaml of
      Inl e \<Rightarrow> is_Exception e | Inr custom_config \<Rightarrow> True) \<and>
   load_custom_config
     (\<lparr>config = YDict [(''a'', YInt 1)], env = ''local'', logged = []\<rparr> :: unit config_manager)
     ''custom.yml'' (Inr (YList [YStr ''a'']))
   = (\<lparr>config = YDict [(''a'', YInt 1)], env = ''local'',
       logged = [(ERROR, ''Error loading custom config from custom.yml: '',
                  Some AttributeError)]\<rparr>, Inr ())"
proof -
  let ?m = "\<lparr>config = YDict [(''a'', YInt 1)], env = ''local'', logged = []\<rparr> :: unit config_manager"
  let ?doc = "Inr (YList [YStr ''a'']) :: error + unit yaml"
  have h: "case ?doc of Inl e \<Rightarrow> is_Exception e | Inr custom_config \<Rightarrow> True" by simp
  have d: "deep_merge_value (config ?m) (YList [YStr ''a'']) = Inl AttributeError"
    by (simp add: deep_merge_value.simps)
  from load_custom_config_atomic[OF h, of ?m "''custom.yml''"] obtain m' where
    r: "load_custom_config ?m ''custom.yml'' ?doc = (m', Inr ())" and e: "env m' = env ?m"
    and c: "(\<exists>custom_config dest. ?doc = Inr custom_config \<and>
                deep_merge_value (config ?m) custom_config = Inr dest \<and> config m' = dest \<and>
                logged m' = logged ?m @
                  [(DEBUG, ''Loaded custom configuration from '' @ ''custom.yml'', None)]) \<or>
            (config m' = config ?m \<and>
             (\<exists>e. (?doc = Inl e \<or>
                   (\<exists>custom_config. ?doc = Inr custom_config \<and>
                      deep_merge_value (config ?m) custom_config = Inl e)) \<and>
                  logged m' = logged ?m @
                    [(ERROR, ''Error loading custom config from '' @ ''custom.yml'' @ '': '',
                      Some e)]))"
    by blast
  from c d have "config m' = config ?m \<and>
      logged m' = [(ERROR, ''Error loading custom config from custom.yml: '', Some AttributeError)]"
    by auto
  with e have "m' = \<lparr>config = YDict [(''a'', YInt 1)], env = ''local'',
       logged = [(ERROR, ''Error loading custom config from custom.yml: '',
                  Some AttributeError)]\<rparr>"
    by (cases m') simp
  with r h show ?thesis by simp
qed


subsection \<open>The accessors\<close>

text \<open>
  C4. The claim reads: \<^verbatim>\<open>get_matlab_path\<close> returns the entry of the environment when the
  mapping \<^verbatim>\<open>config["global"]["matlab"]\<close> has one, and the entry \<^verbatim>\<open>"local"\<close> otherwise. The
  code evaluates the default \<^verbatim>\<open>config["global"]["matlab"]["local"]\<close> before it calls
  \<^verbatim>\<open>get\<close>: with a mapping that has an entry for the environment \<^verbatim>\<open>"server"\<close> and none
  for \<^verbatim>\<open>"local"\<close> it raises \<^verbatim>\<open>KeyError\<close> instead of returning the entry of \<^verbatim>\<open>"server"\<close>.
\<close>

theorem get_matlab_path_without_local:
  "get_matlab_path
     \<lparr>config = YDict [(''global'', YDict [(''matlab'', YDict [(''server'', YStr ''/opt/matlab/bin/matlab'')])])],
      env = ''server'', logged = []\<rparr>
   = (Inl (KeyError ''local'') :: error + unit yaml)"
  by (simp add: get_matlab_path_def)

text \<open>
  Without an entry \<^verbatim>\<open>"local"\<close> the accessor raises for every environment.
\<close>

lemma get_matlab_path_local_missing:
  assumes "getpath (config m) [''global'', ''matlab''] = Inr (YDict paths)"
    and "map_of paths ''local'' = None"
  shows "get_matlab_path m = Inl (KeyError ''local'')"
  using assms by (auto simp: get_matlab_path_def split: sum.splits)

text \<open>
  When \<^verbatim>\<open>config["global"]["matlab"]\<close> is a mapping with an entry \<^verbatim>\<open>"local"\<close>,
  \<^verbatim>\<open>get_matlab_path\<close> returns the entry of the environment when the mapping has one, and
  the entry \<^verbatim>\<open>"local"\<close> otherwise.
\<close>

theorem get_matlab_path_local_present:
  assumes "getpath (config m) [''global'', ''matlab''] = Inr (YDict paths)"
    and "map_of paths ''local'' = Some fallback"
  shows "get_matlab_path m =
           Inr (case map_of paths (env m) of None \<Rightarrow> fallback | Some path \<Rightarrow> path)"
  using assms by (auto simp: get_matlab_path_def dict_get_def split: sum.splits)

theorem get_matlab_path_local_present_witness:
  "getpath (YDict [(''global'', YDict [(''matlab'',
        YDict [(''local'', YStr ''/usr/local/bin/matlab''), (''server'', YStr ''/opt/matlab'')])])]
      :: unit yaml) [''global'', ''matlab'']
     = Inr (YDict [(''local'', YStr ''/usr/local/bin/matlab''), (''server'', YStr ''/opt/matlab'')]) \<and>
   get_matlab_path
     \<lparr>config = YDict [(''global'', YDict [(''matlab'',
        YDict [(''local'', YStr ''/usr/local/bin/matlab''), (''server'', YStr ''/opt/matlab'')])])],
      env = ''local'', logged = []\<rparr>
     = (Inr (YStr ''/usr/local/bin/matlab'') :: error + unit yaml) \<and>
   get_matlab_path
     \<lparr>config = YDict [(''global'', YDict [(''matlab'',
        YDict [(''local'', YStr ''/usr/local/bin/matlab''), (''server'', YStr ''/opt/matlab'')])])],
      env = ''server'', logged = []\<rparr>
     = (Inr (YStr ''/opt/matlab'') :: error + unit yaml) \<and>
   get_matlab_path
     \<lparr>config = YDict [(''global'', YDict [(''matlab'',
        YDict [(''local'', YStr ''/usr/local/bin/matlab''), (''server'', YStr ''/opt/matlab'')])])],
      env = ''unknown'', logged = []\<rparr>
     = (Inr (YStr ''/usr/local/bin/matlab'') :: error + unit yaml)"
proof -
  let ?paths = "[(''local'', YStr ''/usr/local/bin/matlab''), (''server'', YStr ''/opt/matlab'')]
    :: (string \<times> unit yaml) list"
  let ?c = "YDict [(''global'', YDict [(''matlab'', YDict ?paths)])]"
  have p: "getpath (config \<lparr>config = ?c, env = e, logged = []\<rparr>) [''global'', ''matlab'']
      = Inr (YDict ?paths)" for e
    by simp
  have l: "map_of ?paths ''local'' = Some (YStr ''/usr/local/bin/matlab'')" by simp
  note w = get_matlab_path_local_present[OF p l]
  have "getpath ?c [''global'', ''matlab''] = Inr (YDict ?paths)" by simp
  moreover have "get_matlab_path \<lparr>config = ?c, env = ''local'', logged = []\<rparr>
      = Inr (YStr ''/usr/local/bin/matlab'')"
    unfolding w by simp
  moreover have "get_matlab_path \<lparr>config = ?c, env = ''server'', logged = []\<rparr>
      = Inr (YStr ''/opt/matlab'')"
    unfolding w by simp
  moreover have "get_matlab_path \<lparr>config = ?c, env = ''unknown'', logged = []\<rparr>
      = Inr (YStr ''/usr/local/bin/matlab'')"
    unfolding w by simp
  ultimately show ?thesis by (intro conjI)
qed

text \<open>
  C6. With a mapping \<open>profiles\<close> under \<^verbatim>\<open>"implementations"\<close>: for a name that \<open>profiles\<close>
  has, \<^verbatim>\<open>get_implementation_config\<close> returns its value and logs nothing; for a name that
  it does not have, the accessor returns the empty mapping and logs one warning, and
  raises nothing. The other accessors raise \<^verbatim>\<open>KeyError\<close> when the key they look up is
  missing from the mapping that should hold it.
\<close>

theorem get_implementation_config_spec:
  assumes "getitem (config m) ''implementations'' = Inr (YDict profiles)"
  shows "(\<forall>profile. map_of profiles implementation = Some profile \<longrightarrow>
            get_implementation_config m implementation = (m, Inr profile)) \<and>
         (map_of profiles implementation = None \<longrightarrow>
            get_implementation_config m implementation =
              (m\<lparr>logged := logged m @
                  [(WARNING, ''No configuration found for implementation: '' @ implementation,
                    None)]\<rparr>,
               Inr (YDict []))) \<and>
         (\<forall>sect. getitem (config m) ''global'' = Inr (YDict sect) \<and>
              map_of sect ''amica'' = None \<longrightarrow>
            get_amica_params m = Inl (KeyError ''amica'')) \<and>
         (\<forall>sect. getitem (config m) ''project'' = Inr (YDict sect) \<and>
              map_of sect ''structure'' = None \<longrightarrow>
            get_project_structure m = Inl (KeyError ''structure'')) \<and>
         (\<forall>sect. getpath (config m) [''global'', ''eeglab''] = Inr (YDict sect) \<and>
              map_of sect ''path'' = None \<longrightarrow>
            get_eeglab_path m = Inl (KeyError ''path'')) \<and>
         (\<forall>sect. getpath (config m) [''global'', ''eeglab''] = Inr (YDict sect) \<and>
              map_of sect ''startup_options'' = None \<longrightarrow>
            get_matlab_startup_options m = Inl (KeyError ''startup_options''))"
proof -
  have 1: "get_implementation_config m implementation = (m, Inr profile)"
    if "map_of profiles implementation = Some profile" for profile
  proof -
    from that have "implementation \<in> fst ` set profiles"
      by (metis map_of_eq_None_iff option.distinct(1))
    with that assms show ?thesis by (simp add: get_implementation_config_def)
  qed
  have 2: "get_implementation_config m implementation =
              (m\<lparr>logged := logged m @
                  [(WARNING, ''No configuration found for implementation: '' @ implementation,
                    None)]\<rparr>,
               Inr (YDict []))"
    if "map_of profiles implementation = None"
  proof -
    from that have "implementation \<notin> fst ` set profiles" by (simp add: map_of_eq_None_iff)
    with assms show ?thesis by (simp add: get_implementation_config_def log_call_def)
  qed
  have 3: "get_amica_params m = Inl (KeyError ''amica'')"
    if "getitem (config m) ''global'' = Inr (YDict sect) \<and> map_of sect ''amica'' = None"
    for sect
    using that by (simp add: get_amica_params_def)
  have 4: "get_project_structure m = Inl (KeyError ''structure'')"
    if "getitem (config m) ''project'' = Inr (YDict sect) \<and> map_of sect ''structure'' = None"
    for sect
    using that by (simp add: get_project_structure_def)
  have 5: "get_eeglab_path m = Inl (KeyError ''path'')"
    if "getpath (config m) [''global'', ''eeglab''] = Inr (YDict sect) \<and>
        map_of sect ''path'' = None" for sect
    using that by (auto simp: get_eeglab_path_def split: sum.splits)
  have 6: "get_matlab_startup_options m = Inl (KeyError ''startup_options'')"
    if "getpath (config m) [''global'', ''eeglab''] = Inr (YDict sect) \<and>
        map_of sect ''startup_options'' = None" for sect
    using that by (auto simp: get_matlab_startup_options_def split: sum.splits)
  from 1 2 3 4 5 6 show ?thesis by blast
qed

theorem get_implementation_config_spec_witness:
  "getitem (config (\<lparr>config = YDict [(''global'', YDict []),
        (''implementations'', YDict [(''serial'', YDict [(''threads'', YInt 1)])])],
      env = ''local'', logged = []\<rparr> :: unit config_manager)) ''implementations''
     = Inr (YDict [(''serial'', YDict [(''threads'', YInt 1)])]) \<and>
   get_implementation_config (\<lparr>config = YDict [(''global'', YDict []),
        (''implementations'', YDict [(''serial'', YDict [(''threads'', YInt 1)])])],
      env = ''local'', logged = []\<rparr> :: unit config_manager) ''serial''
     = (\<lparr>config = YDict [(''global'', YDict []),
        (''implementations'', YDict [(''serial'', YDict [(''threads'', YInt 1)])])],
      env = ''local'', logged = []\<rparr>, Inr (YDict [(''threads'', YInt 1)])) \<and>
   get_implementation_config (\<lparr>config = YDict [(''global'', YDict []),
        (''implementations'', YDict [(''serial'', YDict [(''threads'', YInt 1)])])],
      env = ''local'', logged = []\<rparr> :: unit config_manager) ''gpu''
     = (\<lparr>config = YDict [(''global'', YDict []),
        (''implementations'', YDict [(''serial'', YDict [(''threads'', YInt 1)])])],
      env = ''local'',
      logged = [(WARNING, ''No configuration found for implementation: gpu'', None)]\<rparr>,
        Inr (YDict [])) \<and>
   get_amica_params (\<lparr>config = YDict [(''global'', YDict []),
        (''implementations'', YDict [(''serial'', YDict [(''threads'', YInt 1)])])],
      env = ''local'', logged = []\<rparr> :: unit config_manager) = Inl (KeyError ''amica'')"
proof -
  let ?m = "\<lparr>config = YDict [(''global'', YDict []),
        (''implementations'', YDict [(''serial'', YDict [(''threads'', YInt 1)])])],
      env = ''local'', logged = []\<rparr> :: unit config_manager"
  have a: "getitem (config ?m) ''implementations''
      = Inr (YDict [(''serial'', YDict [(''threads'', YInt 1)])])" by simp
  note s = get_implementation_config_spec[OF a, of "''serial''"]
  note g = get_implementation_config_spec[OF a, of "''gpu''"]
  have 1: "get_implementation_config ?m ''serial'' = (?m, Inr (YDict [(''threads'', YInt 1)]))"
    using s[THEN conjunct1] by simp
  have 2: "get_implementation_config ?m ''gpu''
     = (?m\<lparr>logged := [(WARNING, ''No configuration found for implementation: gpu'', None)]\<rparr>,
        Inr (YDict []))"
    using g[THEN conjunct2, THEN conjunct1] by simp
  have 3: "get_amica_params ?m = Inl (KeyError ''amica'')"
    using g[THEN conjunct2, THEN conjunct2, THEN conjunct1] by simp
  from a 1 2 3 show ?thesis by simp
qed

lemma config_get_implementation_config:
  "config (fst (get_implementation_config m implementation)) = config m"
  by (simp add: get_implementation_config_def config_log_call split: sum.splits bool.splits)

lemma get_eeglab_path_cong: "config m' = config m \<Longrightarrow> get_eeglab_path m' = get_eeglab_path m"
  by (simp add: get_eeglab_path_def)

lemma get_project_structure_cong:
  "config m' = config m \<Longrightarrow> get_project_structure m' = get_project_structure m"
  by (simp add: get_project_structure_def)

text \<open>
  C7. \<^verbatim>\<open>export_matlab_config\<close> assembles a mapping exactly when the AMICA parameters, the
  implementation profile and the EEGLAB path can be read (and the project structure, for
  \<^verbatim>\<open>"strengthen"\<close>). The mapping holds these three under the keys \<^verbatim>\<open>"amica"\<close>,
  \<^verbatim>\<open>"implementation"\<close> and \<^verbatim>\<open>"eeglab_path"\<close>, in this order, followed by the project
  structure under \<^verbatim>\<open>"project"\<close> if and only if the name is \<^verbatim>\<open>"strengthen"\<close>; it has no
  other key.
\<close>

theorem export_matlab_config_spec:
  "(export_matlab_config m implementation = (m', Inr exported) \<longleftrightarrow>
      (\<exists>amica impl eeglab_path.
         get_amica_params m = Inr amica \<and>
         get_implementation_config m implementation = (m', Inr impl) \<and>
         get_eeglab_path m = Inr eeglab_path \<and>
         (if implementation = ''strengthen'' then
            \<exists>project. get_project_structure m = Inr project \<and>
              exported = YDict [(''amica'', amica), (''implementation'', impl),
                                (''eeglab_path'', eeglab_path), (''project'', project)]
          else exported = YDict [(''amica'', amica), (''implementation'', impl),
                                 (''eeglab_path'', eeglab_path)]))) \<and>
   (\<forall>kvs. export_matlab_config m implementation = (m', Inr (YDict kvs)) \<longrightarrow>
      {''amica'', ''implementation'', ''eeglab_path''} \<subseteq> fst ` set kvs \<and>
      fst ` set kvs \<subseteq> {''amica'', ''implementation'', ''eeglab_path'', ''project''} \<and>
      (''project'' \<in> fst ` set kvs \<longleftrightarrow> implementation = ''strengthen''))"
proof -
  obtain m1 r where g: "get_implementation_config m implementation = (m1, r)"
    by (cases "get_implementation_config m implementation")
  then have c: "config m1 = config m"
    using config_get_implementation_config[of m implementation] by simp
  have e: "get_eeglab_path m1 = get_eeglab_path m" using c by (rule get_eeglab_path_cong)
  have p: "get_project_structure m1 = get_project_structure m"
    using c by (rule get_project_structure_cong)
  have main: "export_matlab_config m implementation = (m', Inr exported) \<longleftrightarrow>
      (\<exists>amica impl eeglab_path.
         get_amica_params m = Inr amica \<and>
         get_implementation_config m implementation = (m', Inr impl) \<and>
         get_eeglab_path m = Inr eeglab_path \<and>
         (if implementation = ''strengthen'' then
            \<exists>project. get_project_structure m = Inr project \<and>
              exported = YDict [(''amica'', amica), (''implementation'', impl),
                                (''eeglab_path'', eeglab_path), (''project'', project)]
          else exported = YDict [(''amica'', amica), (''implementation'', impl),
                                 (''eeglab_path'', eeglab_path)]))" for exported
    by (cases "get_amica_params m"; cases r; cases "get_eeglab_path m";
        cases "get_project_structure m")
      (auto simp: export_matlab_config_def g e p Let_def)
  have keys: "{''amica'', ''implementation'', ''eeglab_path''} \<subseteq> fst ` set kvs \<and>
      fst ` set kvs \<subseteq> {''amica'', ''implementation'', ''eeglab_path'', ''project''} \<and>
      (''project'' \<in> fst ` set kvs \<longleftrightarrow> implementation = ''strengthen'')"
    if "export_matlab_config m implementation = (m', Inr (YDict kvs))" for kvs
    using that unfolding main by (auto split: if_splits)
  from main keys show ?thesis by blast
qed

theorem export_matlab_config_spec_witness:
  "export_matlab_config
     (\<lparr>config = YDict
        [(''global'', YDict [(''amica'', YDict [(''max_iter'', YInt 2000)]),
                            (''eeglab'', YDict [(''path'', YStr ''/opt/eeglab'')])]),
         (''implementations'', YDict [(''strengthen'', YDict [(''nodes'', YInt 8)]),
                                     (''serial'', YDict [])]),
         (''project'', YDict [(''structure'', YDict [(''raw'', YStr ''data/raw'')])])],
       env = ''local'', logged = []\<rparr> :: unit config_manager) ''strengthen''
   = (\<lparr>config = YDict
        [(''global'', YDict [(''amica'', YDict [(''max_iter'', YInt 2000)]),
                            (''eeglab'', YDict [(''path'', YStr ''/opt/eeglab'')])]),
         (''implementations'', YDict [(''strengthen'', YDict [(''nodes'', YInt 8)]),
                                     (''serial'', YDict [])]),
         (''project'', YDict [(''structure'', YDict [(''raw'', YStr ''data/raw'')])])],
       env = ''local'', logged = []\<rparr>,
      Inr (YDict [(''amica'', YDict [(''max_iter'', YInt 2000)]),
                  (''implementation'', YDict [(''nodes'', YInt 8)]),
                  (''eeglab_path'', YStr ''/opt/eeglab''),
                  (''project'', YDict [(''raw'', YStr ''data/raw'')])])) \<and>
   export_matlab_config
     (\<lparr>config = YDict
        [(''global'', YDict [(''amica'', YDict [(''max_iter'', YInt 2000)]),
                            (''eeglab'', YDict [(''path'', YStr ''/opt/eeglab'')])]),
         (''implementations'', YDict [(''strengthen'', YDict [(''nodes'', YInt 8)]),
                                     (''serial'', YDict [])]),
         (''project'', YDict [(''structure'', YDict [(''raw'', YStr ''data/raw'')])])],
       env = ''local'', logged = []\<rparr> :: unit config_manager) ''serial''
   = (\<lparr>config = YDict
        [(''global'', YDict [(''amica'', YDict [(''max_iter'', YInt 2000)]),
                            (''eeglab'', YDict [(''path'', YStr ''/opt/eeglab'')])]),
         (''implementations'', YDict [(''strengthen'', YDict [(''nodes'', YInt 8)]),
                                     (''serial'', YDict [])]),
         (''project'', YDict [(''structure'', YDict [(''raw'', YStr ''data/raw'')])])],
       env = ''local'', logged = []\<rparr>,
      Inr (YDict [(''amica'', YDict [(''max_iter'', YInt 2000)]),
                  (''implementation'', YDict []),
                  (''eeglab_path'', YStr ''/opt/eeglab'')]))"
proof -
  let ?m = "\<lparr>config = YDict
        [(''global'', YDict [(''amica'', YDict [(''max_iter'', YInt 2000)]),
                            (''eeglab'', YDict [(''path'', YStr ''/opt/eeglab'')])]),
         (''implementations'', YDict [(''strengthen'', YDict [(''nodes'', YInt 8)]),
                                     (''serial'', YDict [])]),
         (''project'', YDict [(''structure'', YDict [(''raw'', YStr ''data/raw'')])])],
       env = ''local'', logged = []\<rparr> :: unit config_manager"
  have a: "get_amica_params ?m = Inr (YDict [(''max_iter'', YInt 2000)])"
    by (simp add: get_amica_params_def)
  have e: "get_eeglab_path ?m = Inr (YStr ''/opt/eeglab'')"
    by (simp add: get_eeglab_path_def)
  have p: "get_project_structure ?m = Inr (YDict [(''raw'', YStr ''data/raw'')])"
    by (simp add: get_project_structure_def)
  have i1: "get_implementation_config ?m ''strengthen'' = (?m, Inr (YDict [(''nodes'', YInt 8)]))"
    by (simp add: get_implementation_config_def)
  have i2: "get_implementation_config ?m ''serial'' = (?m, Inr (YDict []))"
    by (simp add: get_implementation_config_def)
  have 1: "export_matlab_config ?m ''strengthen'' =
      (?m, Inr (YDict [(''amica'', YDict [(''max_iter'', YInt 2000)]),
                  (''implementation'', YDict [(''nodes'', YInt 8)]),
                  (''eeglab_path'', YStr ''/opt/eeglab''),
                  (''project'', YDict [(''raw'', YStr ''data/raw'')])]))"
    unfolding export_matlab_config_spec[THEN conjunct1] by (simp add: a e p i1)
  have 2: "export_matlab_config ?m ''serial'' =
      (?m, Inr (YDict [(''amica'', YDict [(''max_iter'', YInt 2000)]),
                  (''implementation'', YDict []),
                  (''eeglab_path'', YStr ''/opt/eeglab'')]))"
    unfolding export_matlab_config_spec[THEN conjunct1] by (simp add: a e p i2)
  show ?thesis by (rule conjI[OF 1 2])
qed


section \<open>Properties of the elapsed-time aggregator\<close>

subsection \<open>The two calls of \<^verbatim>\<open>index\<close> and the body of the \<^verbatim>\<open>try\<close>\<close>

lemma str_index_found:
  "c \<in> set s \<Longrightarrow> str_index s c = Inr (length (takeWhile (\<lambda>x. x \<noteq> c) s))"
  by (induction s) auto

lemma str_index_missing: "c \<notin> set s \<Longrightarrow> str_index s c = Inl ValueError"
  by (induction s) auto

lemma str_index_Inr:
  "str_index s c = Inr i \<Longrightarrow> c \<in> set s \<and> i = length (takeWhile (\<lambda>x. x \<noteq> c) s)"
  by (cases "c \<in> set s") (simp_all add: str_index_found str_index_missing)

lemma str_index_error: "str_index s c = Inl e \<Longrightarrow> e = ValueError"
  by (cases "c \<in> set s") (simp_all add: str_index_found str_index_missing)

lemma py_float_error: "py_float F s = Inl e \<Longrightarrow> e = ValueError"
  by (auto simp: py_float_def Let_def split: option.splits if_splits)

lemma strip_Nil: "strip [] = []"
  by (simp add: strip_def)

lemma py_float_empty: "py_float F [] = Inl ValueError"
  by (simp add: py_float_def strip_Nil)

lemma try_body_error: "try_body F total_seconds line = Inl e \<Longrightarrow> e = ValueError"
  by (auto simp: try_body_def Let_def split: sum.splits dest: str_index_error py_float_error)

lemma try_body_found:
  assumes "str_index line CHR ''('' = Inr i" "str_index line CHR ''s'' = Inr j"
  shows "try_body F total_seconds line =
     (case py_float F (strip (slice line (i + 1) j)) of
        Inl e \<Rightarrow> Inl e
      | Inr time_in_seconds \<Rightarrow> Inr (add_float F total_seconds time_in_seconds))"
  using assms by (simp add: try_body_def)

lemma scan_line_found:
  assumes "str_index line CHR ''('' = Inr i" "str_index line CHR ''s'' = Inr j"
  shows "scan_line F total_seconds line =
     (case py_float F (strip (slice line (i + 1) j)) of
        Inl e \<Rightarrow> Inr total_seconds
      | Inr time_in_seconds \<Rightarrow> Inr (add_float F total_seconds time_in_seconds))"
proof -
  from assms have both: "CHR ''('' \<in> set line" "CHR ''s'' \<in> set line"
    by (auto dest: str_index_Inr)
  show ?thesis
  proof (cases "py_float F (strip (slice line (i + 1) j))")
    case (Inl e)
    then have "e = ValueError" by (rule py_float_error)
    with Inl both show ?thesis by (simp add: scan_line_def try_body_found[OF assms])
  next
    case (Inr x)
    with both show ?thesis by (simp add: scan_line_def try_body_found[OF assms])
  qed
qed

lemma scan_line_returns: "\<exists>new_total. scan_line F total_seconds line = Inr new_total"
proof (cases "try_body F total_seconds line")
  case (Inl e)
  then have "e = ValueError" by (rule try_body_error)
  with Inl show ?thesis by (simp add: scan_line_def)
next
  case (Inr t)
  then show ?thesis by (simp add: scan_line_def)
qed

lemma scan_lines_returns: "\<exists>new_total. scan_lines F total_seconds lines = Inr new_total"
proof (induction lines arbitrary: total_seconds)
  case Nil
  show ?case by simp
next
  case (Cons line lines)
  obtain t where "scan_line F total_seconds line = Inr t"
    using scan_line_returns[of F total_seconds line] by blast
  with Cons.IH[of t] show ?case by simp
qed

subsection \<open>The token\<close>

lemma slice_empty: "j \<le> i \<Longrightarrow> slice s i j = []"
  by (simp add: slice_def)

lemma take_length_takeWhile: "take (length (takeWhile P s)) s = takeWhile P s"
  by (induction s) auto

lemma slice_between:
  assumes "a \<noteq> b" "a \<in> set s"
    and "length (takeWhile (\<lambda>c. c \<noteq> a) s) < length (takeWhile (\<lambda>c. c \<noteq> b) s)"
  shows "drop (Suc (length (takeWhile (\<lambda>c. c \<noteq> a) s)))
              (take (length (takeWhile (\<lambda>c. c \<noteq> b) s)) s)
           = takeWhile (\<lambda>c. c \<noteq> b) (drop 1 (dropWhile (\<lambda>c. c \<noteq> a) s))"
  using assms
proof (induction s)
  case Nil
  then show ?case by simp
next
  case (Cons x s)
  show ?case
  proof (cases "x = a")
    case True
    with Cons.prems(1) show ?thesis by (simp add: take_length_takeWhile)
  next
    case False
    with Cons.prems have "x \<noteq> b" by auto
    with False Cons show ?thesis by simp
  qed
qed

lemma slice_spec_token:
  assumes "CHR ''('' \<in> set line"
    and "length (takeWhile (\<lambda>c. c \<noteq> CHR ''('') line)
           < length (takeWhile (\<lambda>c. c \<noteq> CHR ''s'') line)"
  shows "slice line (length (takeWhile (\<lambda>c. c \<noteq> CHR ''('') line) + 1)
            (length (takeWhile (\<lambda>c. c \<noteq> CHR ''s'') line)) = spec_token line"
  unfolding slice_def spec_token_def using slice_between[OF _ assms] by simp

text \<open>
  C2. The claim: for a line with both characters, the token is the substring between the
  first \<^verbatim>\<open>(\<close> and the first \<^verbatim>\<open>s\<close> that follows this parenthesis, and its value is added to
  the total; the comment in the source gives \<^verbatim>\<open>(175.76 s\<close> as the shape of the token. The
  code ends the token at \<^verbatim>\<open>line.index('s')\<close>, the first \<^verbatim>\<open>s\<close> of the whole line. On
  \<^verbatim>\<open>step (175.76 s) done\<close> the token of the claim is \<^verbatim>\<open>175.76\<close>, which \<^verbatim>\<open>float\<close> reads as
  175.76; the code finds \<^verbatim>\<open>(\<close> at position 5 and \<^verbatim>\<open>s\<close> at position 0, the \<^verbatim>\<open>s\<close> of \<^verbatim>\<open>step\<close>,
  the slice from 6 up to 0 is empty, \<^verbatim>\<open>float\<close> raises \<^verbatim>\<open>ValueError\<close> on it, and the total
  stays as it is: the duration of the line is not counted.
\<close>

theorem scan_line_misses_token:
  "CHR ''('' \<in> set ''step (175.76 s) done'' \<and>
   CHR ''s'' \<in> set ''step (175.76 s) done'' \<and>
   spec_token ''step (175.76 s) done'' = ''175.76 '' \<and>
   py_float exact_ops (strip (spec_token ''step (175.76 s) done'')) = Inr (4394 / 25) \<and>
   str_index ''step (175.76 s) done'' CHR ''('' = Inr 5 \<and>
   str_index ''step (175.76 s) done'' CHR ''s'' = Inr 0 \<and>
   slice ''step (175.76 s) done'' 6 0 = [] \<and>
   scan_line exact_ops (PInt 0) ''step (175.76 s) done'' = Inr (PInt 0) \<and>
   scan_line exact_ops (PInt 0) ''step (175.76 s) done''
     \<noteq> Inr (add_float exact_ops (PInt 0) (4394 / 25))"
proof -
  have t: "spec_token ''step (175.76 s) done'' = ''175.76 ''"
    by (simp add: spec_token_def)
  have f: "py_float exact_ops (strip ''175.76 '') = Inr (4394 / 25)"
    by (simp add: py_float_def exact_ops_def strip_def isspace_def decimal_def digit_def)
  have r: "scan_line exact_ops (PInt 0) ''step (175.76 s) done'' = Inr (PInt 0)"
    by (simp add: scan_line_def try_body_def py_float_def slice_def strip_def)
  show ?thesis unfolding t r using f by (simp add: add_float_def slice_def)
qed

text \<open>
  What a turn of the loop does with a line that has both characters, \<open>i\<close> the position of
  its first \<^verbatim>\<open>(\<close> and \<open>j\<close> the position of its first \<^verbatim>\<open>s\<close>: the token is the slice from
  \<open>i + 1\<close> up to \<open>j\<close>; the turn adds \<^verbatim>\<open>float\<close> of the stripped token to the total when
  \<^verbatim>\<open>float\<close> accepts it and leaves the total as it is otherwise. When the first \<^verbatim>\<open>s\<close> of the
  line comes after the first \<^verbatim>\<open>(\<close>, this is the token between the parenthesis and the
  first \<^verbatim>\<open>s\<close> that follows it; when it comes before, the token is empty.
\<close>

theorem scan_line_first_s:
  assumes "CHR ''('' \<in> set line" "CHR ''s'' \<in> set line"
  shows "\<exists>i j. str_index line CHR ''('' = Inr i \<and> str_index line CHR ''s'' = Inr j \<and>
           i = length (takeWhile (\<lambda>c. c \<noteq> CHR ''('') line) \<and>
           j = length (takeWhile (\<lambda>c. c \<noteq> CHR ''s'') line) \<and>
           scan_line F total_seconds line =
             (case py_float F (strip (slice line (i + 1) j)) of
                Inl e \<Rightarrow> Inr total_seconds
              | Inr time_in_seconds \<Rightarrow> Inr (add_float F total_seconds time_in_seconds)) \<and>
           (i < j \<longrightarrow> slice line (i + 1) j = spec_token line) \<and>
           (j < i \<longrightarrow> slice line (i + 1) j = [])"
proof -
  let ?i = "length (takeWhile (\<lambda>c. c \<noteq> CHR ''('') line)"
  let ?j = "length (takeWhile (\<lambda>c. c \<noteq> CHR ''s'') line)"
  have i: "str_index line CHR ''('' = Inr ?i" using assms(1) by (rule str_index_found)
  have j: "str_index line CHR ''s'' = Inr ?j" using assms(2) by (rule str_index_found)
  have "?i < ?j \<longrightarrow> slice line (?i + 1) ?j = spec_token line"
    using slice_spec_token[OF assms(1)] by blast
  moreover have "?j < ?i \<longrightarrow> slice line (?i + 1) ?j = []"
    by (simp add: slice_empty)
  ultimately show ?thesis
    using i j scan_line_found[OF i j, of F total_seconds] by blast
qed

theorem scan_line_first_s_witness:
  "CHR ''('' \<in> set ''iter 1 lrate = 0.05 (175.76 s, 0.1 h)'' \<and>
   CHR ''s'' \<in> set ''iter 1 lrate = 0.05 (175.76 s, 0.1 h)'' \<and>
   str_index ''iter 1 lrate = 0.05 (175.76 s, 0.1 h)'' CHR ''('' = Inr 20 \<and>
   str_index ''iter 1 lrate = 0.05 (175.76 s, 0.1 h)'' CHR ''s'' = Inr 28 \<and>
   slice ''iter 1 lrate = 0.05 (175.76 s, 0.1 h)'' 21 28 = ''175.76 '' \<and>
   spec_token ''iter 1 lrate = 0.05 (175.76 s, 0.1 h)'' = ''175.76 '' \<and>
   scan_line exact_ops (PInt 0) ''iter 1 lrate = 0.05 (175.76 s, 0.1 h)''
     = Inr (PFloat (4394 / 25))"
proof -
  let ?line = "''iter 1 lrate = 0.05 (175.76 s, 0.1 h)''"
  have a: "CHR ''('' \<in> set ?line" by simp
  have b: "CHR ''s'' \<in> set ?line" by simp
  from scan_line_first_s[OF a b, of exact_ops "PInt 0"] obtain i j where
    i: "str_index ?line CHR ''('' = Inr i" "i = length (takeWhile (\<lambda>c. c \<noteq> CHR ''('') ?line)"
    and j: "str_index ?line CHR ''s'' = Inr j" "j = length (takeWhile (\<lambda>c. c \<noteq> CHR ''s'') ?line)"
    and r: "scan_line exact_ops (PInt 0) ?line =
             (case py_float exact_ops (strip (slice ?line (i + 1) j)) of
                Inl e \<Rightarrow> Inr (PInt 0)
              | Inr time_in_seconds \<Rightarrow> Inr (add_float exact_ops (PInt 0) time_in_seconds))"
    and t: "i < j \<longrightarrow> slice ?line (i + 1) j = spec_token ?line"
    by blast
  have i20: "i = 20" unfolding i(2) by simp
  have j28: "j = 28" unfolding j(2) by simp
  have sl: "slice ?line 21 28 = ''175.76 ''" by (simp add: slice_def)
  have st: "strip ''175.76 '' = ''175.76''" by (simp add: strip_def isspace_def)
  have st': "strip ''175.76'' = ''175.76''" by (simp add: strip_def isspace_def)
  have d: "decimal ''175.76'' = Some (4394 / 25)" by (simp add: decimal_def digit_def)
  have f: "py_float exact_ops ''175.76'' = Inr (4394 / 25)"
    by (simp add: py_float_def st' d exact_ops_def)
  from t sl have sp: "spec_token ?line = ''175.76 ''" unfolding i20 j28 by simp
  from r have "scan_line exact_ops (PInt 0) ?line = Inr (add_float exact_ops (PInt 0) (4394 / 25))"
    unfolding i20 j28 by (simp add: sl st f)
  moreover have "add_float exact_ops (PInt 0) (4394 / 25) = PFloat (4394 / 25)"
    by (simp add: add_float_def exact_ops_def)
  ultimately have "scan_line exact_ops (PInt 0) ?line = Inr (PFloat (4394 / 25))"
    by simp
  with a b i(1) j(1) sl sp show ?thesis unfolding i20 j28 by simp
qed

text \<open>
  C5. For a line whose first \<^verbatim>\<open>(\<close> is at \<open>i\<close> and whose first \<^verbatim>\<open>s\<close> is at \<open>j\<close>. When the
  \<^verbatim>\<open>s\<close> comes first (\<open>j < i\<close>), the token is empty and \<^verbatim>\<open>float\<close> raises \<^verbatim>\<open>ValueError\<close>
  on it. Whenever \<^verbatim>\<open>float\<close> raises on the stripped token, as for the token \<^verbatim>\<open>abc\<close> of
  \<^verbatim>\<open>(abc s)\<close>, the exception is \<^verbatim>\<open>ValueError\<close>, it is what the body of the \<^verbatim>\<open>try\<close>
  raises, the turn of the loop returns the total unchanged and raises nothing, and the
  loop goes on with the lines that are left. The empty token takes this same path.
\<close>

theorem scan_line_skips:
  assumes "str_index line CHR ''('' = Inr i" "str_index line CHR ''s'' = Inr j"
  shows "(j < i \<longrightarrow>
            slice line (i + 1) j = [] \<and>
            py_float F (strip (slice line (i + 1) j)) = Inl ValueError \<and>
            scan_line F total_seconds line = Inr total_seconds) \<and>
         (\<forall>e. py_float F (strip (slice line (i + 1) j)) = Inl e \<longrightarrow>
            e = ValueError \<and>
            try_body F total_seconds line = Inl ValueError \<and>
            scan_line F total_seconds line = Inr total_seconds \<and>
            scan_lines F total_seconds (line # rest) = scan_lines F total_seconds rest)"
proof -
  have malformed: "e = ValueError \<and>
            try_body F total_seconds line = Inl ValueError \<and>
            scan_line F total_seconds line = Inr total_seconds \<and>
            scan_lines F total_seconds (line # rest) = scan_lines F total_seconds rest"
    if "py_float F (strip (slice line (i + 1) j)) = Inl e" for e
  proof -
    from that have "e = ValueError" by (rule py_float_error)
    with that show ?thesis
      by (simp add: try_body_found[OF assms] scan_line_found[OF assms])
  qed
  have empty: "slice line (i + 1) j = [] \<and>
            py_float F (strip (slice line (i + 1) j)) = Inl ValueError" if "j < i"
    using that by (simp add: slice_empty strip_Nil py_float_empty)
  from malformed empty show ?thesis by blast
qed

theorem scan_line_skips_witness:
  "str_index ''elapsed (3 s)'' CHR ''('' = Inr 8 \<and>
   str_index ''elapsed (3 s)'' CHR ''s'' = Inr 4 \<and>
   (4::nat) < 8 \<and>
   scan_line exact_ops (PFloat 7) ''elapsed (3 s)'' = Inr (PFloat 7) \<and>
   str_index ''(abc s)'' CHR ''('' = Inr 0 \<and>
   str_index ''(abc s)'' CHR ''s'' = Inr 5 \<and>
   py_float exact_ops (strip (slice ''(abc s)'' (0 + 1) 5)) = Inl ValueError \<and>
   try_body exact_ops (PFloat 7) ''(abc s)'' = Inl ValueError \<and>
   scan_line exact_ops (PFloat 7) ''(abc s)'' = Inr (PFloat 7)"
proof -
  have i: "str_index ''elapsed (3 s)'' CHR ''('' = Inr 8" by simp
  have j: "str_index ''elapsed (3 s)'' CHR ''s'' = Inr 4" by simp
  have i': "str_index ''(abc s)'' CHR ''('' = Inr 0" by simp
  have j': "str_index ''(abc s)'' CHR ''s'' = Inr 5" by simp
  have m: "py_float exact_ops (strip (slice ''(abc s)'' (0 + 1) 5)) = Inl ValueError"
    by (simp add: py_float_def exact_ops_def decimal_def slice_def strip_def isspace_def
        digit_def)
  from scan_line_skips[OF i j, of exact_ops "PFloat 7"]
  have 1: "scan_line exact_ops (PFloat 7) ''elapsed (3 s)'' = Inr (PFloat 7)" by simp
  from scan_line_skips[OF i' j', of exact_ops "PFloat 7"] m
  have 2: "try_body exact_ops (PFloat 7) ''(abc s)'' = Inl ValueError"
    "scan_line exact_ops (PFloat 7) ''(abc s)'' = Inr (PFloat 7)" by simp_all
  from i j i' j' m 1 2 show ?thesis by simp
qed

text \<open>
  C9. On a file with no lines the result is the float of 0: the total starts as the
  integer 0, no turn of the loop changes it, and the quotient of 0 by 3600 is 0. For any
  lines the result is the total that the loop returns from 0, divided by 3600.
\<close>

theorem calculate_total_time_empty:
  "calculate_total_time F (Inr []) = Inr (float_round F 0) \<and>
   scan_lines F (PInt 0) [] = Inr (PInt 0) \<and>
   (\<exists>total_seconds. scan_lines F (PInt 0) lines = Inr total_seconds \<and>
      calculate_total_time F (Inr lines) = Inr (truediv F total_seconds 3600))"
proof -
  obtain t where "scan_lines F (PInt 0) lines = Inr t"
    using scan_lines_returns[of F "PInt 0" lines] by blast
  then show ?thesis by (simp add: calculate_total_time_def)
qed

theorem calculate_total_time_empty_witness:
  "calculate_total_time exact_ops (Inr []) = Inr 0"
  using calculate_total_time_empty[of exact_ops "[]"] by (simp add: exact_ops_def)

text \<open>
  C10. Whatever the lines of the file are, \<^verbatim>\<open>calculate_total_time\<close> returns a float and
  raises nothing: on a line with both characters the two calls of \<^verbatim>\<open>index\<close> succeed, the
  only exception that the body of the \<^verbatim>\<open>try\<close> raises is \<^verbatim>\<open>ValueError\<close>, and every turn of
  the loop returns a total.
\<close>

theorem calculate_total_time_never_raises:
  "(\<exists>total_hours. calculate_total_time F (Inr lines) = Inr total_hours) \<and>
   (\<forall>line. CHR ''('' \<in> set line \<and> CHR ''s'' \<in> set line \<longrightarrow>
      (\<exists>i j. str_index line CHR ''('' = Inr i \<and> str_index line CHR ''s'' = Inr j)) \<and>
   (\<forall>total_seconds line e. try_body F total_seconds line = Inl e \<longrightarrow> e = ValueError) \<and>
   (\<forall>total_seconds line. \<exists>new_total. scan_line F total_seconds line = Inr new_total)"
proof -
  obtain t where "scan_lines F (PInt 0) lines = Inr t"
    using scan_lines_returns[of F "PInt 0" lines] by blast
  then have "\<exists>total_hours. calculate_total_time F (Inr lines) = Inr total_hours"
    by (simp add: calculate_total_time_def)
  moreover have "\<exists>i j. str_index line CHR ''('' = Inr i \<and> str_index line CHR ''s'' = Inr j"
    if "CHR ''('' \<in> set line \<and> CHR ''s'' \<in> set line" for line
    using that by (simp add: str_index_found)
  ultimately show ?thesis
    using try_body_error[of F] scan_line_returns[of F] by blast
qed

theorem calculate_total_time_never_raises_witness:
  "(\<exists>total_hours. calculate_total_time exact_ops
       (Inr [''(abc s)'', ''no duration here'', ''s (1 s'', ''iter 2 (1.5 s, 0.1 h)''])
       = Inr total_hours) \<and>
   calculate_total_time exact_ops
       (Inr [''(abc s)'', ''no duration here'', ''s (1 s'', ''iter 2 (1.5 s, 0.1 h)''])
       = Inr (1 / 2400) \<and>
   CHR ''('' \<in> set ''(abc s)'' \<and> CHR ''s'' \<in> set ''(abc s)'' \<and>
   try_body exact_ops (PInt 0) ''(abc s)'' = Inl ValueError"
proof -
  let ?lines = "[''(abc s)'', ''no duration here'', ''s (1 s'', ''iter 2 (1.5 s, 0.1 h)'']"
  have v: "calculate_total_time exact_ops (Inr ?lines) = Inr (1 / 2400)"
    by (simp add: calculate_total_time_def scan_line_def try_body_def py_float_def slice_def
        strip_def isspace_def exact_ops_def decimal_def digit_def add_float_def)
  have t: "try_body exact_ops (PInt 0) ''(abc s)'' = Inl ValueError"
    by (simp add: try_body_def py_float_def slice_def
        strip_def isspace_def exact_ops_def decimal_def digit_def)
  from calculate_total_time_never_raises[of exact_ops ?lines]
  have "\<exists>total_hours. calculate_total_time exact_ops (Inr ?lines) = Inr total_hours" by blast
  with v t show ?thesis by simp
qed


end
